theory Spec2Isabelle
  imports Main "HOL-Library.FSet" "HOL-Library.Multiset"
begin

section \<open>The sidebar of bccc: data model\<close>

text \<open>
  The embedding follows \<^verbatim>\<open>bccc/ui/sidebar.py\<close>. Python objects live in a store:
  a \<^verbatim>\<open>ChannelBox\<close> is addressed by a reference, the list of the \<^verbatim>\<open>ChannelsList\<close>
  holds references, and so does \<^verbatim>\<open>active_channel\<close>; two references are the same object
  iff they are equal. An exception is a value: a function that mutates the user interface
  returns \<open>Inl (e, s)\<close> when it raises \<open>e\<close>, where \<open>s\<close> is the state the mutations made
  before the raise have left behind, and \<open>Inr s\<close> when it returns.
\<close>

datatype error = ChannelError | ValueError | IndexError | AttributeError

type_synonym ref = nat

type_synonym timestamp = int

text \<open>The channel of the network client: only its \<^verbatim>\<open>jid\<close> is read by the sidebar.\<close>

record channel =
  jid :: string

text \<open>An Atom entry as the callbacks receive it.\<close>

record atom =
  published :: timestamp
  atom_id :: string
  content :: string

text \<open>The configuration dictionary of \<^verbatim>\<open>set_config\<close>: each key is present or absent.
  The creation date is a \<^verbatim>\<open>datetime\<close>, kept abstract as \<open>'d\<close>.\<close>

record 'd config =
  cfg_title :: "string option"
  cfg_description :: "string option"
  cfg_creation :: "'d option"
  cfg_type :: "string option"

text \<open>
  A \<^verbatim>\<open>ChannelBox\<close>. The four text widgets are kept by their text; the eight attribute
  maps that \<^verbatim>\<open>set_active\<close> always sets together are the single field \<open>style_active\<close>.
\<close>

record channel_box =
  channel :: channel
  active :: bool
  unread_ids :: "string fset"
  widget_user :: string
  widget_domain :: string
  widget_notif :: string
  widget_status :: string
  style_active :: bool
  chan_title :: string
  chan_description :: string
  chan_creation :: string
  chan_type :: string
  most_recent_activity :: timestamp

text \<open>A row of the list walker: a channel box or the divider.\<close>

datatype row = RBox ref | RDivider

text \<open>The calls made on the content pane \<^verbatim>\<open>ui.threads_list\<close>, in order.\<close>

datatype pane_call =
    SetActiveChannel channel
  | AddNewItems "atom list"
  | RemoveItems "string list"

text \<open>
  The user interface as the sidebar sees it: the store of channel boxes, the list walker
  (\<open>channels\<close> with its \<open>focus\<close> position), \<^verbatim>\<open>active_channel\<close>, and the collaborators
  \<^verbatim>\<open>ui.status\<close>, \<^verbatim>\<open>ui.infobar_left\<close>, \<^verbatim>\<open>ui.infobar_right\<close>, \<^verbatim>\<open>ui.threads_list\<close>
  and \<^verbatim>\<open>ui.notify\<close>.
\<close>

record ui_state =
  boxes :: "ref \<Rightarrow> channel_box"
  next_ref :: ref
  channels :: "row list"
  focus :: nat
  active_channel :: "ref option"
  status :: string
  infobar_left :: string
  infobar_right :: string
  threads_list :: "pane_call list"
  notified :: nat

text \<open>The network client \<^verbatim>\<open>ui.client\<close>: what its calls answer.\<close>

record client =
  get_own_channel :: "error + channel"
  get_subscriptions :: "channel \<Rightarrow> error + channel list"
  get_channel :: "string \<Rightarrow> bool \<Rightarrow> error + channel"
  boundjid_bare :: string

type_synonym result = "(error \<times> ui_state) + ui_state"

section \<open>Strings\<close>

text \<open>\<^verbatim>\<open>user, domain = jid.split("@", 1)\<close>: \<open>None\<close> when there is no separator, where
  the unpacking raises.\<close>

definition split_once :: "char \<Rightarrow> string \<Rightarrow> (string \<times> string) option" where
  "split_once c s =
     (if c \<in> set s
      then Some (takeWhile (\<lambda>x. x \<noteq> c) s, tl (dropWhile (\<lambda>x. x \<noteq> c) s))
      else None)"

text \<open>\<^verbatim>\<open>s.split(".")\<close>: never empty, with an empty word between two separators.\<close>

fun split_on :: "char \<Rightarrow> string \<Rightarrow> string list" where
  "split_on c [] = [Nil]"
| "split_on c (x # xs) =
     (if x = c then [] # split_on c xs
      else (case split_on c xs of
              [] \<Rightarrow> [x # Nil]
            | w # ws \<Rightarrow> (x # w) # ws))"

text \<open>\<^verbatim>\<open>[w[0] for w in words]\<close>: an empty word raises \<^verbatim>\<open>IndexError\<close>.\<close>

fun initials :: "string list \<Rightarrow> error + string" where
  "initials [] = Inr []"
| "initials (w # ws) =
     (case w of
        [] \<Rightarrow> Inl IndexError
      | c # _ \<Rightarrow> (case initials ws of Inl e \<Rightarrow> Inl e | Inr cs \<Rightarrow> Inr (c # cs)))"

text \<open>The characters below 256 that \<^verbatim>\<open>str.isspace\<close> accepts.\<close>

definition is_space :: "char \<Rightarrow> bool" where
  "is_space c = (of_char c \<in> {9, 10, 11, 12, 13, 28, 29, 30, 31, 32, 133, 160 :: nat})"

definition strip :: "string \<Rightarrow> string" where
  "strip s = rev (dropWhile is_space (rev (dropWhile is_space s)))"

text \<open>The decimal digit \<open>d < 10\<close>.\<close>

definition digit_char :: "nat \<Rightarrow> char" where
  "digit_char d = ''0123456789'' ! d"

text \<open>\<^verbatim>\<open>"{}".format(n)\<close> for a count.\<close>

fun str_nat :: "nat \<Rightarrow> string" where
  "str_nat n = (if n < 10 then [digit_char n] else str_nat (n div 10) @ [digit_char (n mod 10)])"

section \<open>ChannelBox\<close>

definition oldest_date :: timestamp where
  "oldest_date = 0"

text \<open>
  \<^verbatim>\<open>ChannelBox.__init__\<close>. The requests it sends to the channel (status, configuration,
  the most recent post) are answered later, through the callbacks.
\<close>

definition ChannelBox_init :: "channel \<Rightarrow> error + channel_box" where
  "ChannelBox_init chan =
     (case split_once CHR ''@'' (jid chan) of
        None \<Rightarrow> Inl ValueError
      | Some (user, domain) \<Rightarrow>
          (case initials (split_on CHR ''.'' domain) of
             Inl e \<Rightarrow> Inl e
           | Inr short \<Rightarrow>
               Inr \<lparr> channel = chan, active = False, unread_ids = {||},
                     widget_user = user, widget_domain = CHR ''@'' # short,
                     widget_notif = [], widget_status = [], style_active = False,
                     chan_title = [], chan_description = [], chan_creation = [],
                     chan_type = [], most_recent_activity = oldest_date \<rparr>))"

definition update_box :: "ref \<Rightarrow> (channel_box \<Rightarrow> channel_box) \<Rightarrow> ui_state \<Rightarrow> ui_state" where
  "update_box r f s = s\<lparr>boxes := (boxes s)(r := f (boxes s r))\<rparr>"

definition notify :: "ui_state \<Rightarrow> ui_state" where
  "notify s = s\<lparr>notified := Suc (notified s)\<rparr>"

definition display_config :: "ref \<Rightarrow> ui_state \<Rightarrow> ui_state" where
  "display_config r s =
     (let b = boxes s r in
      if active b
      then s\<lparr>infobar_left := chan_title b @ '' - '' @ chan_description b,
              infobar_right := jid (channel b)\<rparr>
      else s)"

definition set_active :: "ref \<Rightarrow> bool \<Rightarrow> ui_state \<Rightarrow> ui_state" where
  "set_active r a s =
     (let s1 = update_box r (\<lambda>b. b\<lparr>active := a\<rparr>) s in
      if a
      then display_config r
             (update_box r (\<lambda>b. b\<lparr>style_active := True, widget_notif := [], unread_ids := {||}\<rparr>) s1)
      else update_box r (\<lambda>b. b\<lparr>style_active := False\<rparr>) s1)"

definition set_status :: "ref \<Rightarrow> string \<Rightarrow> ui_state \<Rightarrow> ui_state" where
  "set_status r st s = update_box r (\<lambda>b. b\<lparr>widget_status := st\<rparr>) s"

text \<open>\<^verbatim>\<open>set_config\<close>; \<open>strftime\<close> is \<^verbatim>\<open>creation.strftime("%x - %X")\<close>, which depends on
  the locale.\<close>

definition set_config :: "('d \<Rightarrow> string) \<Rightarrow> ref \<Rightarrow> 'd config \<Rightarrow> ui_state \<Rightarrow> ui_state" where
  "set_config strftime r conf s =
     (let s1 = (case cfg_title conf of
                  Some t \<Rightarrow> update_box r (\<lambda>b. b\<lparr>chan_title := strip t\<rparr>) s
                | None \<Rightarrow> s);
          s2 = (case cfg_description conf of
                  Some d \<Rightarrow> update_box r (\<lambda>b. b\<lparr>chan_description := strip d\<rparr>) s1
                | None \<Rightarrow> s1);
          s3 = (case cfg_creation conf of
                  Some c \<Rightarrow> update_box r (\<lambda>b. b\<lparr>chan_creation := strftime c\<rparr>) s2
                | None \<Rightarrow> s2);
          s4 = (case cfg_type conf of
                  Some t \<Rightarrow> update_box r (\<lambda>b. b\<lparr>chan_type := t\<rparr>) s3
                | None \<Rightarrow> s3)
      in display_config r s4)"

section \<open>Rendering the first line\<close>

datatype segment = SegUser | SegDomain | SegNotif | SegStatus

text \<open>
  The first line is either one widget rendered at the full size, or a \<^verbatim>\<open>CanvasJoin\<close> of
  widgets with their column counts.
\<close>

datatype canvas = Rendered segment int | CanvasJoin "(segment \<times> int) list"

text \<open>
  \<^verbatim>\<open>render\<close>, for \<^verbatim>\<open>size = (maxcol,)\<close>. \<open>pack\<close> is the column count that the text
  widget's \<^verbatim>\<open>pack\<close> answers for a text. The result is the pair of the two lines that
  \<^verbatim>\<open>CanvasCombine\<close> stacks.
\<close>

definition render :: "(string \<Rightarrow> int) \<Rightarrow> int \<Rightarrow> channel_box \<Rightarrow> canvas \<times> canvas" where
  "render pack maxcol b =
     (let user_col = pack (widget_user b);
          canv1 =
            (if fcard (unread_ids b) = 0
             then (let domain_col = maxcol - user_col in
                   if domain_col > 0
                   then CanvasJoin [(SegUser, user_col), (SegDomain, domain_col)]
                   else Rendered SegUser maxcol)
             else (let notif_col = pack (widget_notif b);
                       domain_col = maxcol - user_col - notif_col in
                   if domain_col > 0
                   then CanvasJoin [(SegUser, user_col), (SegDomain, domain_col),
                                    (SegNotif, notif_col)]
                   else (let user_col = min user_col (maxcol - notif_col) in
                         if user_col > 0
                         then CanvasJoin [(SegUser, user_col), (SegNotif, notif_col)]
                         else Rendered SegNotif maxcol)))
      in (canv1, Rendered SegStatus maxcol))"

section \<open>ChannelsList\<close>

text \<open>A store whose cells are never read before \<open>new_box\<close> has written them.\<close>

definition blank_box :: channel_box where
  "blank_box =
     \<lparr> channel = \<lparr>jid = []\<rparr>, active = False, unread_ids = {||},
       widget_user = [], widget_domain = [], widget_notif = [], widget_status = [],
       style_active = False, chan_title = [], chan_description = [], chan_creation = [],
       chan_type = [], most_recent_activity = oldest_date \<rparr>"

text \<open>\<^verbatim>\<open>ChannelsList.__init__\<close>: an empty walker and no active channel.\<close>

definition init_ui :: ui_state where
  "init_ui =
     \<lparr> boxes = (\<lambda>_. blank_box), next_ref = 0, channels = [], focus = 0,
       active_channel = None, status = [], infobar_left = [], infobar_right = [],
       threads_list = [], notified = 0 \<rparr>"

text \<open>
  The list walker (\<^verbatim>\<open>urwid.SimpleListWalker\<close>) after every change of its content or
  focus: a focus beyond the end moves to the last position, \<^verbatim>\<open>max(0, len - 1)\<close>.
\<close>

definition modified :: "ui_state \<Rightarrow> ui_state" where
  "modified s =
     (if focus s \<ge> length (channels s) then s\<lparr>focus := length (channels s) - 1\<rparr> else s)"

definition set_focus :: "nat \<Rightarrow> ui_state \<Rightarrow> ui_state" where
  "set_focus pos s = modified (s\<lparr>focus := pos\<rparr>)"

text \<open>\<^verbatim>\<open>get_focus\<close>: \<^verbatim>\<open>None\<close> on an empty walker, the focused widget otherwise.\<close>

definition get_focus :: "ui_state \<Rightarrow> error + row option" where
  "get_focus s =
     (if channels s = [] then Inr None
      else if focus s < length (channels s) then Inr (Some (channels s ! focus s))
      else Inl IndexError)"

text \<open>\<^verbatim>\<open>list.index\<close>: \<open>None\<close> where Python raises \<^verbatim>\<open>ValueError\<close>.\<close>

fun index_of :: "'a list \<Rightarrow> 'a \<Rightarrow> nat option" where
  "index_of [] y = None"
| "index_of (x # xs) y = (if x = y then Some 0 else map_option Suc (index_of xs y))"

text \<open>\<^verbatim>\<open>list.insert(i, x)\<close> for \<open>i \<ge> 0\<close>: beyond the end it appends.\<close>

definition list_insert :: "nat \<Rightarrow> 'a \<Rightarrow> 'a list \<Rightarrow> 'a list" where
  "list_insert i x xs = take i xs @ x # drop i xs"

text \<open>The rows read as channel boxes: \<open>None\<close> when one of them is the divider, which has
  no \<^verbatim>\<open>most_recent_activity\<close>.\<close>

fun box_refs :: "row list \<Rightarrow> ref list option" where
  "box_refs [] = Some []"
| "box_refs (RDivider # rows) = None"
| "box_refs (RBox r # rows) = map_option ((#) r) (box_refs rows)"

text \<open>\<^verbatim>\<open>xs.sort(key=key, reverse=True)\<close>: the list is reversed, sorted by a stable
  ascending sort, and reversed again.\<close>

definition sort_reverse :: "('a \<Rightarrow> timestamp) \<Rightarrow> 'a list \<Rightarrow> 'a list" where
  "sort_reverse key xs = rev (sort_key key (rev xs))"

definition sort_channels :: "ui_state \<Rightarrow> result" where
  "sort_channels s =
     (case get_focus s of
        Inl e \<Rightarrow> Inl (e, s)
      | Inr focus_w \<Rightarrow>
          (case box_refs (drop 2 (channels s)) of
             None \<Rightarrow> Inl (AttributeError, s)
           | Some sortable_chans \<Rightarrow>
               (let sorted_chans =
                      sort_reverse (\<lambda>cb. most_recent_activity (boxes s cb)) sortable_chans;
                    s1 = modified (s\<lparr>channels := take 2 (channels s) @ map RBox sorted_chans\<rparr>)
                in case focus_w of
                     None \<Rightarrow> Inl (ValueError, s1)
                   | Some w \<Rightarrow>
                       (case index_of (channels s1) w of
                          None \<Rightarrow> Inl (ValueError, s1)
                        | Some focus_pos \<Rightarrow> Inr (set_focus focus_pos s1)))))"

definition make_active :: "row \<Rightarrow> ui_state \<Rightarrow> result" where
  "make_active chan s =
     (case chan of
        RDivider \<Rightarrow> Inl (AttributeError, s)
      | RBox r \<Rightarrow>
          if active_channel s = Some r then Inr s
          else (let s1 = s\<lparr>status := ''Displaying channel '' @ jid (channel (boxes s r)) @ ''...''\<rparr>;
                    s2 = (case active_channel s1 of
                            Some old \<Rightarrow> set_active old False s1
                          | None \<Rightarrow> s1);
                    s3 = set_active r True (s2\<lparr>active_channel := Some r\<rparr>)
                in Inr (s3\<lparr>threads_list :=
                             threads_list s3 @ [SetActiveChannel (channel (boxes s3 r))]\<rparr>)))"

text \<open>\<^verbatim>\<open>ChannelBox(self.ui, chan)\<close>: a new object in the store.\<close>

definition new_box :: "channel \<Rightarrow> ui_state \<Rightarrow> error + (ref \<times> ui_state)" where
  "new_box chan s =
     (case ChannelBox_init chan of
        Inl e \<Rightarrow> Inl e
      | Inr b \<Rightarrow>
          Inr (next_ref s, s\<lparr>boxes := (boxes s)(next_ref s := b), next_ref := next_ref s + 1\<rparr>))"

text \<open>The loop of \<^verbatim>\<open>load_channels\<close>; \<open>me\<close> is \<^verbatim>\<open>ui.client.boundjid.bare\<close>.\<close>

fun add_channels :: "string \<Rightarrow> channel list \<Rightarrow> ui_state \<Rightarrow> result" where
  "add_channels me [] s = Inr s"
| "add_channels me (chan # chans) s =
     (case new_box chan s of
        Inl e \<Rightarrow> Inl (e, s)
      | Inr (w, s1) \<Rightarrow>
          if jid chan = me
          then (case make_active (RBox w) (modified (s1\<lparr>channels := list_insert 0 (RBox w) (channels s1)\<rparr>)) of
                  Inl err \<Rightarrow> Inl err
                | Inr s2 \<Rightarrow> add_channels me chans s2)
          else add_channels me chans (modified (s1\<lparr>channels := channels s1 @ [RBox w]\<rparr>)))"

definition load_channels :: "client \<Rightarrow> ui_state \<Rightarrow> result" where
  "load_channels cl s =
     (case get_own_channel cl of
        Inl e \<Rightarrow> Inl (e, s)
      | Inr user_chan \<Rightarrow>
          (case get_subscriptions cl user_chan of
             Inl e \<Rightarrow> Inl (e, s)
           | Inr chans \<Rightarrow>
               (case add_channels (boundjid_bare cl) chans (modified (s\<lparr>channels := []\<rparr>)) of
                  Inl err \<Rightarrow> Inl err
                | Inr s1 \<Rightarrow>
                    Inr (modified (s1\<lparr>channels := list_insert 1 RDivider (channels s1)\<rparr>)))))"

definition reset :: "client \<Rightarrow> ui_state \<Rightarrow> result" where
  "reset cl s =
     (case active_channel s of
        None \<Rightarrow> Inl (ValueError, s)
      | Some chan_box \<Rightarrow>
          (case index_of (channels s) (RBox chan_box) of
             None \<Rightarrow> Inl (ValueError, s)
           | Some idx \<Rightarrow>
               (case get_channel cl (jid (channel (boxes s chan_box))) True of
                  Inl e \<Rightarrow> if e = ChannelError then Inr s else Inl (e, s)
                | Inr new_chan \<Rightarrow>
                    (case new_box new_chan s of
                       Inl e \<Rightarrow> Inl (e, s)
                     | Inr (new_chan_box, s1) \<Rightarrow>
                         make_active (RBox new_chan_box)
                           (modified (s1\<lparr>channels := (channels s1)[idx := RBox new_chan_box]\<rparr>))))))"

text \<open>The search of \<^verbatim>\<open>_goto_channel\<close>: the first position holding a channel box of
  that \<^verbatim>\<open>jid\<close>.\<close>

fun find_jid :: "(ref \<Rightarrow> channel_box) \<Rightarrow> string \<Rightarrow> row list \<Rightarrow> nat option" where
  "find_jid bs j [] = None"
| "find_jid bs j (RDivider # rows) = map_option Suc (find_jid bs j rows)"
| "find_jid bs j (RBox r # rows) =
     (if jid (channel (bs r)) = j then Some 0 else map_option Suc (find_jid bs j rows))"

text \<open>\<^verbatim>\<open>goto\<close> with the \<^verbatim>\<open>jid\<close> given (the inner \<^verbatim>\<open>_goto_channel\<close>).\<close>

definition goto :: "client \<Rightarrow> string \<Rightarrow> ui_state \<Rightarrow> result" where
  "goto cl jid0 s =
     (let j = strip jid0 in
      case find_jid (boxes s) j (channels s) of
        Some chan_idx \<Rightarrow> make_active (channels s ! chan_idx) (set_focus chan_idx s)
      | None \<Rightarrow>
          (case get_channel cl j False of
             Inl e \<Rightarrow> if e = ChannelError then Inr s else Inl (e, s)
           | Inr ch \<Rightarrow>
               (case new_box ch s of
                  Inl e \<Rightarrow> Inl (e, s)
                | Inr (r, s1) \<Rightarrow>
                    (let s2 = modified (s1\<lparr>channels := channels s1 @ [RBox r]\<rparr>);
                         chan_idx = length (channels s2) - 1
                     in make_active (channels s2 ! chan_idx) (set_focus chan_idx s2)))))"

section \<open>The callbacks of a channel box\<close>

text \<open>The loop that finds the most recent atom: the new \<^verbatim>\<open>most_recent_activity\<close> and
  \<^verbatim>\<open>recent_changed\<close>.\<close>

definition most_recent :: "atom list \<Rightarrow> timestamp \<Rightarrow> timestamp \<times> bool" where
  "most_recent atoms t0 =
     fold (\<lambda>a (t, changed). if published a > t then (published a, True) else (t, changed))
          atoms (t0, False)"

definition pubsub_posts_callback :: "ref \<Rightarrow> atom list \<Rightarrow> ui_state \<Rightarrow> result" where
  "pubsub_posts_callback r atoms s =
     (let first_post_ever = (most_recent_activity (boxes s r) = oldest_date);
          (t, recent_changed) = most_recent atoms (most_recent_activity (boxes s r));
          s1 = update_box r (\<lambda>b. b\<lparr>most_recent_activity := t\<rparr>) s
      in case (if recent_changed then sort_channels s1 else Inr s1) of
           Inl err \<Rightarrow> Inl err
         | Inr s2 \<Rightarrow>
             Inr (notify
               (if active (boxes s2 r)
                then s2\<lparr>threads_list := threads_list s2 @ [AddNewItems atoms]\<rparr>
                else if \<not> first_post_ever
                then (let s3 = update_box r
                                 (\<lambda>b. b\<lparr>unread_ids := fold (\<lambda>a u. finsert (atom_id a) u) atoms (unread_ids b)\<rparr>) s2;
                          nb_unread = fcard (unread_ids (boxes s3 r))
                      in if nb_unread > 0
                         then update_box r (\<lambda>b. b\<lparr>widget_notif := '' ['' @ str_nat nb_unread @ '']''\<rparr>) s3
                         else s3)
                else s2)))"

definition pubsub_retract_callback :: "ref \<Rightarrow> string list \<Rightarrow> ui_state \<Rightarrow> result" where
  "pubsub_retract_callback r item_ids s =
     (let s1 = update_box r
                 (\<lambda>b. b\<lparr>unread_ids := fold (\<lambda>i u. u |-| {|i|}) item_ids (unread_ids b)\<rparr>) s;
          s2 = (if active (boxes s1 r)
                then s1\<lparr>threads_list := threads_list s1 @ [RemoveItems item_ids]\<rparr>
                else s1)
      in sort_channels s2)"

definition pubsub_status_callback :: "ref \<Rightarrow> atom \<Rightarrow> ui_state \<Rightarrow> ui_state" where
  "pubsub_status_callback r a s = notify (update_box r (\<lambda>b. b\<lparr>widget_status := content a\<rparr>) s)"

definition pubsub_config_clalback :: "('d \<Rightarrow> string) \<Rightarrow> ref \<Rightarrow> 'd config \<Rightarrow> ui_state \<Rightarrow> ui_state" where
  "pubsub_config_clalback strftime r conf s = notify (set_config strftime r conf s)"

section \<open>Outcomes, events and the properties of the list\<close>

definition returns :: "result \<Rightarrow> bool" where
  "returns res = (case res of Inr _ \<Rightarrow> True | Inl _ \<Rightarrow> False)"

text \<open>The state a call leaves behind, whether it returned or raised.\<close>

definition state_after :: "result \<Rightarrow> ui_state" where
  "state_after res = (case res of Inr s \<Rightarrow> s | Inl (e, s) \<Rightarrow> s)"

text \<open>The events a channel delivers to the callbacks of its box.\<close>

datatype event = PostEvent ref "atom list" | RetractEvent ref "string list"

fun apply_event :: "event \<Rightarrow> ui_state \<Rightarrow> result" where
  "apply_event (PostEvent r atoms) s = pubsub_posts_callback r atoms s"
| "apply_event (RetractEvent r item_ids) s = pubsub_retract_callback r item_ids s"

fun run_events :: "event list \<Rightarrow> ui_state \<Rightarrow> result" where
  "run_events [] s = Inr s"
| "run_events (ev # evs) s =
     (case apply_event ev s of
        Inl err \<Rightarrow> Inl err
      | Inr s' \<Rightarrow> run_events evs s')"

fun make_active_all :: "ref list \<Rightarrow> ui_state \<Rightarrow> result" where
  "make_active_all [] s = Inr s"
| "make_active_all (r # rs) s =
     (case make_active (RBox r) s of
        Inl err \<Rightarrow> Inl err
      | Inr s' \<Rightarrow> make_active_all rs s')"

text \<open>
  What every state of the list walker satisfies: the focus is a position of the list
  unless the list is empty, and from position 2 on every row is a channel box.
\<close>

definition walker_ok :: "ui_state \<Rightarrow> bool" where
  "walker_ok s \<longleftrightarrow>
     (channels s = [] \<or> focus s < length (channels s))
     \<and> box_refs (drop 2 (channels s)) \<noteq> None"

text \<open>Position 0 holds the channel of the user.\<close>

definition self_first :: "string \<Rightarrow> ui_state \<Rightarrow> bool" where
  "self_first me s =
     (case channels s of
        RBox r # _ \<Rightarrow> jid (channel (boxes s r)) = me
      | _ \<Rightarrow> False)"

text \<open>Position 1 holds the divider.\<close>

definition divider_second :: "ui_state \<Rightarrow> bool" where
  "divider_second s = (1 < length (channels s) \<and> channels s ! 1 = RDivider)"

text \<open>From position 2 on, the rows are channel boxes in descending order of
  \<^verbatim>\<open>most_recent_activity\<close>.\<close>

definition sorted_by_activity :: "ui_state \<Rightarrow> bool" where
  "sorted_by_activity s =
     (case box_refs (drop 2 (channels s)) of
        None \<Rightarrow> False
      | Some refs \<Rightarrow>
          sorted_wrt (\<lambda>a b. most_recent_activity (boxes s a) \<ge> most_recent_activity (boxes s b)) refs)"

definition ordered :: "string \<Rightarrow> ui_state \<Rightarrow> bool" where
  "ordered me s \<longleftrightarrow> self_first me s \<and> divider_second s \<and> sorted_by_activity s"

definition row_activity :: "ui_state \<Rightarrow> row \<Rightarrow> timestamp option" where
  "row_activity s w =
     (case w of RBox r \<Rightarrow> Some (most_recent_activity (boxes s r)) | RDivider \<Rightarrow> None)"

text \<open>Between \<open>s\<close> and \<open>s'\<close>, the rows from position 2 on that have the same timestamp
  in \<open>s'\<close> have kept their relative order.\<close>

definition order_kept :: "ui_state \<Rightarrow> ui_state \<Rightarrow> bool" where
  "order_kept s s' \<longleftrightarrow>
     (\<forall>t. filter (\<lambda>w. row_activity s' w = Some t) (drop 2 (channels s'))
        = filter (\<lambda>w. row_activity s' w = Some t) (drop 2 (channels s)))"

text \<open>The subscriptions that the client answers contain the channel of the user.\<close>

definition own_channel_subscribed :: "client \<Rightarrow> bool" where
  "own_channel_subscribed cl =
     (case get_own_channel cl of
        Inl _ \<Rightarrow> False
      | Inr user_chan \<Rightarrow>
          (case get_subscriptions cl user_chan of
             Inl _ \<Rightarrow> False
           | Inr chans \<Rightarrow> boundjid_bare cl \<in> set (map jid chans)))"

text \<open>The subscriptions that the client answers are not empty.\<close>

definition has_subscriptions :: "client \<Rightarrow> bool" where
  "has_subscriptions cl =
     (case get_own_channel cl of
        Inl _ \<Rightarrow> False
      | Inr user_chan \<Rightarrow>
          (case get_subscriptions cl user_chan of
             Inl _ \<Rightarrow> False
           | Inr chans \<Rightarrow> chans \<noteq> []))"

text \<open>Every active channel box of the list is \<^verbatim>\<open>active_channel\<close>.\<close>

definition exclusive :: "ui_state \<Rightarrow> bool" where
  "exclusive s \<longleftrightarrow>
     (\<forall>w \<in> set (channels s).
        case w of
          RBox r \<Rightarrow> active (boxes s r) \<longrightarrow> active_channel s = Some r
        | RDivider \<Rightarrow> True)"

definition active_rows :: "ui_state \<Rightarrow> ref list" where
  "active_rows s =
     remdups (concat (map (\<lambda>w. case w of
                                 RBox r \<Rightarrow> if active (boxes s r) then [r] else []
                               | RDivider \<Rightarrow> [])
                          (channels s)))"

text \<open>The segments of a rendered first line.\<close>

fun segments :: "canvas \<Rightarrow> segment list" where
  "segments (Rendered seg _) = [seg]"
| "segments (CanvasJoin parts) = map fst parts"

text \<open>The rows are new channel boxes: allocated, and never posted to. This is what the
  loop of \<open>load_channels\<close> maintains.\<close>

definition fresh_rows :: "ui_state \<Rightarrow> bool" where
  "fresh_rows s \<longleftrightarrow>
     (\<forall>w \<in> set (channels s).
        case w of
          RBox r \<Rightarrow> r < next_ref s \<and> most_recent_activity (boxes s r) = oldest_date
        | RDivider \<Rightarrow> False)
     \<and> (channels s = [] \<or> focus s < length (channels s))"

section \<open>A session\<close>

text \<open>
  Alice is subscribed to Bob, to herself and to Carol. The client cannot fetch any other
  channel. Loading allocates the boxes 0 (Bob), 1 (Alice) and 2 (Carol).
\<close>

definition example_client :: client where
  "example_client =
     \<lparr> get_own_channel = Inr \<lparr>jid = ''alice@example.org''\<rparr>,
       get_subscriptions =
         (\<lambda>_. Inr [\<lparr>jid = ''bob@example.org''\<rparr>, \<lparr>jid = ''alice@example.org''\<rparr>,
                    \<lparr>jid = ''carol@example.long.xyz''\<rparr>]),
       get_channel = (\<lambda>j force_new. Inl ChannelError),
       boundjid_bare = ''alice@example.org'' \<rparr>"

definition loaded_ui :: ui_state where
  "loaded_ui = state_after (load_channels example_client init_ui)"

text \<open>The answer to the request for the most recent post of Carol, then three new posts,
  then the retraction of one of them.\<close>

definition probe_atoms :: "atom list" where
  "probe_atoms = [\<lparr>published = 100, atom_id = ''p0'', content = ''hello''\<rparr>]"

definition new_atoms :: "atom list" where
  "new_atoms = [\<lparr>published = 110, atom_id = ''p1'', content = ''a''\<rparr>,
                \<lparr>published = 120, atom_id = ''p2'', content = ''b''\<rparr>,
                \<lparr>published = 130, atom_id = ''p3'', content = ''c''\<rparr>]"

definition probed_ui :: ui_state where
  "probed_ui = state_after (pubsub_posts_callback 2 probe_atoms loaded_ui)"

definition posted_ui :: ui_state where
  "posted_ui = state_after (pubsub_posts_callback 2 new_atoms probed_ui)"

definition retracted_ui :: ui_state where
  "retracted_ui = state_after (pubsub_retract_callback 2 [''p1''] posted_ui)"

text \<open>The focus on Carol, in the last row, whose activity is now the most recent.\<close>

definition focused_ui :: ui_state where
  "focused_ui = update_box 2 (\<lambda>b. b\<lparr>most_recent_activity := 100\<rparr>) (set_focus 3 loaded_ui)"

text \<open>A client whose subscriptions are Bob, Carol and Dave, without the channel of the
  user Alice, and two events after the load: a first answer for Carol (box 1) and one for
  Dave (box 2).\<close>

definition stranger_client :: client where
  "stranger_client =
     \<lparr> get_own_channel = Inr \<lparr>jid = ''alice@example.org''\<rparr>,
       get_subscriptions =
         (\<lambda>_. Inr [\<lparr>jid = ''bob@example.org''\<rparr>, \<lparr>jid = ''carol@example.long.xyz''\<rparr>,
                    \<lparr>jid = ''dave@example.org''\<rparr>]),
       get_channel = (\<lambda>j force_new. Inl ChannelError),
       boundjid_bare = ''alice@example.org'' \<rparr>"

definition stranger_events :: "event list" where
  "stranger_events = [PostEvent 1 probe_atoms, PostEvent 2 new_atoms]"

text \<open>A client that answers the forced fetch of Alice's channel.\<close>

definition refetch_client :: client where
  "refetch_client = example_client\<lparr>get_channel := (\<lambda>j force_new. Inr \<lparr>jid = j\<rparr>)\<rparr>"


text \<open>A formatter of creation dates, and a configuration that carries a type only.\<close>

definition fixed_strftime :: "nat \<Rightarrow> string" where
  "fixed_strftime d = ''01/01/12 - 00:00:00''"

definition type_config :: "nat config" where
  "type_config =
     \<lparr>cfg_title = None, cfg_description = None, cfg_creation = None, cfg_type = Some '' topic ''\<rparr>"

text \<open>The box of \<^verbatim>\<open>alice@example.long.xyz\<close> with twelve unread posts.\<close>

definition alice_box :: channel_box where
  "alice_box =
     blank_box\<lparr>channel := \<lparr>jid = ''alice@example.long.xyz''\<rparr>,
               widget_user := ''alice'', widget_domain := ''@elx'', widget_notif := '' [12]'',
               unread_ids := fset_of_list (map str_nat [1..<13])\<rparr>"

section \<open>Everything the sidebar does\<close>

text \<open>\<^verbatim>\<open>keypress\<close> with the key \<^verbatim>\<open>enter\<close>: the focused widget, or \<^verbatim>\<open>None\<close> on an empty
  list, is handed to \<^verbatim>\<open>make_active\<close>.\<close>

definition keypress_enter :: "ui_state \<Rightarrow> result" where
  "keypress_enter s =
     (case get_focus s of
        Inl e \<Rightarrow> Inl (e, s)
      | Inr None \<Rightarrow> if active_channel s = None then Inr s else Inl (AttributeError, s)
      | Inr (Some focus_w) \<Rightarrow> make_active focus_w s)"

datatype 'd action =
    Load client
  | Posts ref "atom list"
  | Retract ref "string list"
  | Status ref atom
  | Config ref "'d config"
  | MakeActive row
  | Enter
  | Reset client
  | Goto client string
  | Sort

fun perform :: "('d \<Rightarrow> string) \<Rightarrow> 'd action \<Rightarrow> ui_state \<Rightarrow> result" where
  "perform strftime (Load cl) s = load_channels cl s"
| "perform strftime (Posts r atoms) s = pubsub_posts_callback r atoms s"
| "perform strftime (Retract r item_ids) s = pubsub_retract_callback r item_ids s"
| "perform strftime (Status r a) s = Inr (pubsub_status_callback r a s)"
| "perform strftime (Config r conf) s = Inr (pubsub_config_clalback strftime r conf s)"
| "perform strftime (MakeActive w) s = make_active w s"
| "perform strftime Enter s = keypress_enter s"
| "perform strftime (Reset cl) s = reset cl s"
| "perform strftime (Goto cl j) s = goto cl j s"
| "perform strftime Sort s = sort_channels s"

text \<open>A run of the user interface from a state: each action works on the state that the
  one before it has left behind, whether that one returned or raised.\<close>

definition run :: "('d \<Rightarrow> string) \<Rightarrow> 'd action list \<Rightarrow> ui_state \<Rightarrow> ui_state" where
  "run strftime acts s = fold (\<lambda>a s'. state_after (perform strftime a s')) acts s"


section \<open>Auxiliary facts\<close>

declare str_nat.simps [simp del]

lemma index_of_Some: "index_of xs y = Some i \<Longrightarrow> i < length xs \<and> xs ! i = y"
  by (induction xs arbitrary: i) (auto split: if_splits)

lemma index_of_mem: "y \<in> set xs \<Longrightarrow> \<exists>i. index_of xs y = Some i"
  by (induction xs) auto

lemma box_refs_Some: "box_refs rows = Some rs \<longleftrightarrow> rows = map RBox rs"
proof (induction rows arbitrary: rs)
  case Nil
  then show ?case by auto
next
  case (Cons row rows)
  then show ?case by (cases row) (auto simp: map_eq_Cons_conv)
qed

lemma box_refs_map [simp]: "box_refs (map RBox rs) = Some rs"
  by (simp add: box_refs_Some)

lemma box_refs_None: "box_refs rows = None \<longleftrightarrow> RDivider \<in> set rows"
proof (induction rows)
  case Nil
  then show ?case by simp
next
  case (Cons row rows)
  then show ?case by (cases row) auto
qed

lemma mset_sort_reverse [simp]: "mset (sort_reverse k xs) = mset xs"
  by (simp add: sort_reverse_def)

lemma set_sort_reverse [simp]: "set (sort_reverse k xs) = set xs"
  by (simp add: sort_reverse_def)

lemma length_sort_reverse [simp]: "length (sort_reverse k xs) = length xs"
  by (simp add: sort_reverse_def)

lemma sorted_sort_reverse: "sorted_wrt (\<lambda>a b. k a \<ge> k b) (sort_reverse k xs)"
proof -
  have "sorted (map k (sort_key k (rev xs)))" by simp
  then have "sorted_wrt (\<lambda>a b. k a \<le> k b) (sort_key k (rev xs))"
    by (simp add: sorted_map)
  then show ?thesis
    by (simp add: sort_reverse_def sorted_wrt_rev)
qed

lemma stable_sort_reverse:
  "filter (\<lambda>x. k x = t) (sort_reverse k xs) = filter (\<lambda>x. k x = t) xs"
  by (simp add: sort_reverse_def rev_filter [symmetric] sort_key_stable)

text \<open>What \<open>sort_channels\<close> does on a non-empty list of a well-formed walker.\<close>

lemma sort_channels_ok:
  assumes ok: "walker_ok s" and ne: "channels s \<noteq> []"
  obtains refs pos where
    "drop 2 (channels s) = map RBox refs"
    "pos < length (channels s)"
    "(take 2 (channels s) @ map RBox (sort_reverse (\<lambda>cb. most_recent_activity (boxes s cb)) refs)) ! pos
       = channels s ! focus s"
    "sort_channels s =
       Inr (s\<lparr>channels := take 2 (channels s) @ map RBox (sort_reverse (\<lambda>cb. most_recent_activity (boxes s cb)) refs),
              focus := pos\<rparr>)"
proof -
  from ok obtain refs where refs: "box_refs (drop 2 (channels s)) = Some refs"
    by (auto simp: walker_ok_def)
  from ok ne have foc: "focus s < length (channels s)" by (simp add: walker_ok_def)
  let ?k = "\<lambda>cb. most_recent_activity (boxes s cb)"
  let ?cs = "take 2 (channels s) @ map RBox (sort_reverse ?k refs)"
  from refs have d2: "drop 2 (channels s) = map RBox refs" by (simp add: box_refs_Some)
  have "set ?cs = set (take 2 (channels s) @ drop 2 (channels s))"
    by (simp add: d2)
  then have seteq: "set ?cs = set (channels s)" by simp
  have "length ?cs = length (take 2 (channels s) @ drop 2 (channels s))"
    unfolding d2 by simp
  then have len: "length ?cs = length (channels s)" by simp
  from foc have "channels s ! focus s \<in> set ?cs" using seteq by simp
  then obtain pos where pos: "index_of ?cs (channels s ! focus s) = Some pos"
    using index_of_mem by fastforce
  then have p: "pos < length ?cs" "?cs ! pos = channels s ! focus s"
    using index_of_Some by fastforce+
  have m1: "modified (s\<lparr>channels := ?cs\<rparr>) = s\<lparr>channels := ?cs\<rparr>"
    using foc len by (simp add: modified_def)
  have "sort_channels s = Inr (s\<lparr>channels := ?cs, focus := pos\<rparr>)"
    using refs ne foc pos p len
    by (simp add: sort_channels_def get_focus_def Let_def m1 set_focus_def modified_def)
  then show ?thesis using that d2 p len by simp
qed

lemma mset_take_drop_sorted:
  assumes "drop 2 cs = map RBox refs"
  shows "mset (take 2 cs @ map RBox (sort_reverse k refs)) = mset cs"
proof -
  have "mset (take 2 cs @ map RBox (sort_reverse k refs)) = mset (take 2 cs) + mset (map RBox refs)"
    by simp
  also have "\<dots> = mset (take 2 cs @ drop 2 cs)" using assms by simp
  finally show ?thesis by simp
qed

lemma most_recent_fold:
  "fold (\<lambda>a (t, changed). if published a > t then (published a, True) else (t, changed)) atoms (t0, c) = (t, ch)
   \<Longrightarrow> t0 \<le> t \<and> (ch \<longleftrightarrow> c \<or> t0 < t)"
proof (induction atoms arbitrary: t0 c)
  case Nil
  then show ?case by simp
next
  case (Cons a atoms)
  show ?case
  proof (cases "published a > t0")
    case True
    with Cons.prems have "fold (\<lambda>a (t, changed). if published a > t then (published a, True) else (t, changed)) atoms (published a, True) = (t, ch)"
      by simp
    from Cons.IH [OF this] True show ?thesis by auto
  next
    case False
    with Cons.prems have "fold (\<lambda>a (t, changed). if published a > t then (published a, True) else (t, changed)) atoms (t0, c) = (t, ch)"
      by simp
    from Cons.IH [OF this] show ?thesis by auto
  qed
qed

lemma most_recent_cases:
  assumes "most_recent atoms t0 = (t, ch)"
  shows "t0 \<le> t" and "\<not> ch \<Longrightarrow> t = t0"
  using most_recent_fold [of atoms t0 False t ch] assms
  by (auto simp: most_recent_def)

lemma most_recent_changed:
  "snd (most_recent atoms t0) \<longleftrightarrow> (\<exists>a \<in> set atoms. t0 < published a)"
proof -
  have "snd (fold (\<lambda>a (t, changed). if published a > t then (published a, True) else (t, changed))
               atoms (t0, c)) \<longleftrightarrow> c \<or> (\<exists>a \<in> set atoms. t0 < published a)" for c
  proof (induction atoms arbitrary: t0 c)
    case Nil
    then show ?case by simp
  next
    case (Cons a atoms)
    show ?case
    proof (cases "published a > t0")
      case True
      then show ?thesis using Cons.IH [of "published a" True] by auto
    next
      case False
      then show ?thesis using Cons.IH [of t0 c] by auto
    qed
  qed
  from this [of False] show ?thesis by (simp add: most_recent_def)
qed

lemma fold_finsert_ids:
  "fold (\<lambda>a u. finsert (atom_id a) u) atoms u = u |\<union>| fset_of_list (map atom_id atoms)"
  by (induction atoms arbitrary: u) auto

lemma fold_discard_ids:
  "fold (\<lambda>i u. u |-| {|i|}) item_ids u = u |-| fset_of_list item_ids"
  by (induction item_ids arbitrary: u) auto

lemma sort_channels_boxes [simp]: "boxes (state_after (sort_channels s)) = boxes s"
  by (simp add: sort_channels_def state_after_def set_focus_def modified_def Let_def
           split: sum.splits option.splits)

lemma walker_ok_update_box [simp]: "walker_ok (update_box r f s) = walker_ok s"
  by (simp add: walker_ok_def update_box_def)

lemma channels_update_box [simp]: "channels (update_box r f s) = channels s"
  by (simp add: update_box_def)

lemma boxes_update_box [simp]: "boxes (update_box r f s) = (boxes s)(r := f (boxes s r))"
  by (simp add: update_box_def)

lemma sort_channels_returns:
  assumes "walker_ok s" and "channels s \<noteq> []"
  obtains s' where "sort_channels s = Inr s'" and "boxes s' = boxes s"
proof -
  from assms obtain refs pos where
    "sort_channels s =
       Inr (s\<lparr>channels := take 2 (channels s) @ map RBox (sort_reverse (\<lambda>cb. most_recent_activity (boxes s cb)) refs),
              focus := pos\<rparr>)"
    by (rule sort_channels_ok)
  then show ?thesis using that by simp
qed

lemma retract_boxes:
  "boxes (state_after (pubsub_retract_callback r item_ids s)) =
     (boxes s)(r := (boxes s r)\<lparr>unread_ids := unread_ids (boxes s r) |-| fset_of_list item_ids\<rparr>)"
  by (simp add: pubsub_retract_callback_def Let_def fold_discard_ids)

lemma render_notif_iff:
  "SegNotif \<in> set (segments (fst (render pack W b))) \<longleftrightarrow> unread_ids b \<noteq> {||}"
  by (auto simp: render_def Let_def)

lemma make_active_new:
  assumes "active_channel s \<noteq> Some r"
  obtains s' where "make_active (RBox r) s = Inr s'"
    and "channels s' = channels s" and "focus s' = focus s" and "next_ref s' = next_ref s"
    and "active_channel s' = Some r"
    and "\<And>x. active (boxes s' x) \<longleftrightarrow> x = r \<or> (active (boxes s x) \<and> active_channel s \<noteq> Some x)"
    and "unread_ids (boxes s' r) = {||}" and "widget_notif (boxes s' r) = []"
    and "\<And>x. channel (boxes s' x) = channel (boxes s x)"
    and "\<And>x. most_recent_activity (boxes s' x) = most_recent_activity (boxes s x)"
  using assms that
  by (cases "active_channel s")
     (auto simp: make_active_def Let_def set_active_def display_config_def update_box_def)

lemma ChannelBox_init_fields:
  assumes "ChannelBox_init chan = Inr b"
  shows "channel b = chan" and "most_recent_activity b = oldest_date" and "\<not> active b"
    and "unread_ids b = {||}"
  using assms
  by (auto simp: ChannelBox_init_def split: option.splits sum.splits prod.splits)

lemma new_box_fields:
  assumes "new_box chan s = Inr (w, s1)"
  obtains b where "ChannelBox_init chan = Inr b" and "w = next_ref s"
    and "s1 = s\<lparr>boxes := (boxes s)(next_ref s := b), next_ref := next_ref s + 1\<rparr>"
  using assms that by (auto simp: new_box_def split: sum.splits)

lemma make_active_frame:
  assumes "make_active (RBox r) s = Inr s'"
  shows "channels s' = channels s" and "focus s' = focus s" and "next_ref s' = next_ref s"
    and "channel (boxes s' x) = channel (boxes s x)"
    and "most_recent_activity (boxes s' x) = most_recent_activity (boxes s x)"
proof -
  have "channels s' = channels s \<and> focus s' = focus s \<and> next_ref s' = next_ref s
      \<and> channel (boxes s' x) = channel (boxes s x)
      \<and> most_recent_activity (boxes s' x) = most_recent_activity (boxes s x)"
  proof (cases "active_channel s = Some r")
    case True
    with assms show ?thesis by (simp add: make_active_def)
  next
    case False
    then obtain s2 where "make_active (RBox r) s = Inr s2"
      "channels s2 = channels s" "focus s2 = focus s" "next_ref s2 = next_ref s"
      "\<And>x. channel (boxes s2 x) = channel (boxes s x)"
      "\<And>x. most_recent_activity (boxes s2 x) = most_recent_activity (boxes s x)"
      by (rule make_active_new) blast
    with assms show ?thesis by simp
  qed
  then show "channels s' = channels s" and "focus s' = focus s" and "next_ref s' = next_ref s"
    and "channel (boxes s' x) = channel (boxes s x)"
    and "most_recent_activity (boxes s' x) = most_recent_activity (boxes s x)"
    by simp_all
qed

lemma make_active_box_returns: "returns (make_active (RBox r) s)"
  by (simp add: make_active_def returns_def Let_def)

lemma fresh_rowsD:
  "fresh_rows s \<Longrightarrow> w \<in> set (channels s) \<Longrightarrow>
     \<exists>r. w = RBox r \<and> r < next_ref s \<and> most_recent_activity (boxes s r) = oldest_date"
  by (cases w) (auto simp: fresh_rows_def)

lemma self_first_iff:
  "self_first me s \<longleftrightarrow> (\<exists>r rows. channels s = RBox r # rows \<and> jid (channel (boxes s r)) = me)"
  by (auto simp: self_first_def split: list.splits row.splits)

lemma add_channels_inv:
  assumes "add_channels me chans s = Inr s'" and "fresh_rows s"
  shows "fresh_rows s' \<and> (me \<in> set (map jid chans) \<or> self_first me s \<longrightarrow> self_first me s')"
  using assms
proof (induction chans arbitrary: s)
  case Nil
  then show ?case by simp
next
  case (Cons chan chans)
  from Cons.prems(1) obtain w s1 where nb: "new_box chan s = Inr (w, s1)"
    by (auto split: sum.splits)
  then obtain b where b: "ChannelBox_init chan = Inr b" and w: "w = next_ref s"
    and s1: "s1 = s\<lparr>boxes := (boxes s)(next_ref s := b), next_ref := next_ref s + 1\<rparr>"
    by (rule new_box_fields)
  note bf = ChannelBox_init_fields [OF b]
  have fresh1: "\<forall>w' \<in> set (channels s). \<exists>r. w' = RBox r \<and> r < next_ref s \<and> r \<noteq> w
      \<and> most_recent_activity (boxes s1 r) = oldest_date"
    using fresh_rowsD [OF Cons.prems(2)] w s1 by fastforce
  show ?case
  proof (cases "jid chan = me")
    case True
    let ?s2 = "modified (s1\<lparr>channels := list_insert 0 (RBox w) (channels s1)\<rparr>)"
    have ch2: "channels ?s2 = RBox w # channels s" and f2: "focus ?s2 < length (channels ?s2)"
      and n2: "next_ref ?s2 = Suc w" and bx2: "boxes ?s2 = (boxes s)(w := b)"
      using s1 w Cons.prems(2)
      by (auto simp: modified_def list_insert_def fresh_rows_def)
    from Cons.prems(1) nb True obtain s3 where
      s3: "make_active (RBox w) ?s2 = Inr s3" and rest: "add_channels me chans s3 = Inr s'"
      by (auto split: sum.splits)
    note fr = make_active_frame [OF s3]
    have fresh3: "fresh_rows s3"
      unfolding fresh_rows_def
    proof (intro conjI ballI)
      fix w' assume "w' \<in> set (channels s3)"
      then have "w' = RBox w \<or> w' \<in> set (channels s)" using fr(1) ch2 by simp
      then show "case w' of RBox r \<Rightarrow> r < next_ref s3 \<and> most_recent_activity (boxes s3 r) = oldest_date
                 | RDivider \<Rightarrow> False"
      proof
        assume "w' = RBox w"
        then show ?thesis using fr(3,5) n2 bx2 bf by simp
      next
        assume "w' \<in> set (channels s)"
        with fresh1 obtain r where "w' = RBox r" "r < next_ref s" "r \<noteq> w"
          "most_recent_activity (boxes s1 r) = oldest_date" by blast
        then show ?thesis using fr(3,5) n2 bx2 w s1 by simp
      qed
    next
      show "channels s3 = [] \<or> focus s3 < length (channels s3)"
        using fr(1,2) f2 by simp
    qed
    have "self_first me s3"
      using fr(1,4) ch2 bx2 bf True by (simp add: self_first_iff)
    with Cons.IH [OF rest fresh3] show ?thesis by simp
  next
    case False
    let ?s2 = "modified (s1\<lparr>channels := channels s1 @ [RBox w]\<rparr>)"
    have ch2: "channels ?s2 = channels s @ [RBox w]" and f2: "focus ?s2 < length (channels ?s2)"
      and n2: "next_ref ?s2 = Suc w" and bx2: "boxes ?s2 = (boxes s)(w := b)"
      using s1 w Cons.prems(2)
      by (auto simp: modified_def fresh_rows_def)
    from Cons.prems(1) nb False have rest: "add_channels me chans ?s2 = Inr s'"
      by simp
    have fresh2: "fresh_rows ?s2"
      unfolding fresh_rows_def
    proof (intro conjI ballI)
      fix w' assume "w' \<in> set (channels ?s2)"
      then have "w' = RBox w \<or> w' \<in> set (channels s)" using ch2 by auto
      then show "case w' of RBox r \<Rightarrow> r < next_ref ?s2 \<and> most_recent_activity (boxes ?s2 r) = oldest_date
                 | RDivider \<Rightarrow> False"
      proof
        assume "w' = RBox w"
        then show ?thesis using n2 bx2 bf by simp
      next
        assume "w' \<in> set (channels s)"
        with fresh1 obtain r where "w' = RBox r" "r < next_ref s" "r \<noteq> w"
          "most_recent_activity (boxes s1 r) = oldest_date" by blast
        then show ?thesis using n2 bx2 w s1 by simp
      qed
    next
      show "channels ?s2 = [] \<or> focus ?s2 < length (channels ?s2)"
        using f2 by simp
    qed
    have keep: "self_first me s \<longrightarrow> self_first me ?s2"
    proof
      assume "self_first me s"
      then obtain r rows where c: "channels s = RBox r # rows" and j: "jid (channel (boxes s r)) = me"
        by (auto simp: self_first_iff)
      from c fresh1 have "r \<noteq> w" by auto
      with c j ch2 bx2 show "self_first me ?s2" by (simp add: self_first_iff)
    qed
    from Cons.IH [OF rest fresh2] keep False show ?thesis by auto
  qed
qed

lemma sorted_wrt_const:
  "\<forall>x \<in> set xs. k x = c \<Longrightarrow> sorted_wrt (\<lambda>a b. (k a :: int) \<ge> k b) xs"
  by (induction xs) auto

lemma load_channels_ordered:
  assumes load: "load_channels cl s0 = Inr s1" and sub: "own_channel_subscribed cl"
  shows "walker_ok s1 \<and> ordered (boundjid_bare cl) s1"
proof -
  let ?me = "boundjid_bare cl"
  from sub obtain user_chan chans where
    own: "get_own_channel cl = Inr user_chan" and
    subs: "get_subscriptions cl user_chan = Inr chans" and
    mem: "?me \<in> set (map jid chans)"
    by (auto simp: own_channel_subscribed_def split: sum.splits)
  let ?e = "modified (s0\<lparr>channels := []\<rparr>)"
  from load own subs obtain s' where
    add: "add_channels ?me chans ?e = Inr s'" and
    s1: "s1 = modified (s'\<lparr>channels := list_insert 1 RDivider (channels s')\<rparr>)"
    by (auto simp: load_channels_def split: sum.splits)
  have "fresh_rows ?e" by (simp add: fresh_rows_def modified_def)
  from add_channels_inv [OF add this] mem
  have fresh: "fresh_rows s'" and first: "self_first ?me s'" by auto
  from first obtain r rows where cs: "channels s' = RBox r # rows"
    and me: "jid (channel (boxes s' r)) = ?me"
    by (auto simp: self_first_iff)
  from fresh cs have foc: "focus s' < Suc (length rows)" by (simp add: fresh_rows_def)
  have ch1: "channels s1 = RBox r # RDivider # rows" and bx1: "boxes s1 = boxes s'"
    and f1: "focus s1 = focus s'"
    using s1 cs foc by (simp_all add: list_insert_def modified_def)
  have allbox: "\<forall>w \<in> set rows. \<exists>x. w = RBox x \<and> most_recent_activity (boxes s' x) = oldest_date"
    using fresh_rowsD [OF fresh] cs by fastforce
  then have "RDivider \<notin> set rows" by auto
  then obtain refs where refs: "box_refs rows = Some refs"
    using box_refs_None [of rows] by (cases "box_refs rows") auto
  then have rows: "rows = map RBox refs" by (simp add: box_refs_Some)
  with allbox have "\<forall>x \<in> set refs. most_recent_activity (boxes s' x) = oldest_date" by auto
  then have "sorted_wrt (\<lambda>a b. most_recent_activity (boxes s' a) \<ge> most_recent_activity (boxes s' b)) refs"
    by (rule sorted_wrt_const)
  then show ?thesis
    using ch1 bx1 f1 foc me refs
    by (simp add: walker_ok_def ordered_def self_first_def divider_second_def sorted_by_activity_def)
qed

lemma make_active_exclusive:
  assumes ex: "exclusive s" and ma: "make_active (RBox r) s = Inr s'"
  shows "exclusive s'"
proof (cases "active_channel s = Some r")
  case True
  with ma ex show ?thesis by (simp add: make_active_def)
next
  case False
  then obtain s2 where s2: "make_active (RBox r) s = Inr s2"
    and cs: "channels s2 = channels s" and ac: "active_channel s2 = Some r"
    and act: "\<And>x. active (boxes s2 x) \<longleftrightarrow> x = r \<or> (active (boxes s x) \<and> active_channel s \<noteq> Some x)"
    by (rule make_active_new) blast
  from s2 ma have eq: "s' = s2" by simp
  show ?thesis
    unfolding exclusive_def eq
  proof
    fix w assume w: "w \<in> set (channels s2)"
    show "case w of RBox x \<Rightarrow> active (boxes s2 x) \<longrightarrow> active_channel s2 = Some x | RDivider \<Rightarrow> True"
    proof (cases w)
      case (RBox x)
      with w cs ex have "active (boxes s x) \<longrightarrow> active_channel s = Some x"
        by (auto simp: exclusive_def)
      with RBox act ac show ?thesis by auto
    next
      case RDivider
      then show ?thesis by simp
    qed
  qed
qed

lemma make_active_all_exclusive:
  assumes "exclusive s"
  shows "\<exists>s'. make_active_all rs s = Inr s' \<and> exclusive s'"
  using assms
proof (induction rs arbitrary: s)
  case Nil
  then show ?case by simp
next
  case (Cons r rs)
  obtain s1 where s1: "make_active (RBox r) s = Inr s1"
    using make_active_box_returns [of r s] by (auto simp: returns_def split: sum.splits)
  from make_active_exclusive [OF Cons.prems s1] have "exclusive s1" .
  from Cons.IH [OF this] s1 show ?case by simp
qed

lemma set_active_rows:
  "set (active_rows s) = {r. RBox r \<in> set (channels s) \<and> active (boxes s r)}"
  by (auto simp: active_rows_def split: row.splits if_splits)

lemma exclusive_at_most_one:
  assumes "exclusive s"
  shows "length (active_rows s) \<le> 1"
proof -
  have sub: "set (active_rows s) \<subseteq> {r. active_channel s = Some r}"
    using assms by (auto simp: set_active_rows exclusive_def)
  have "card {r. active_channel s = Some r} \<le> 1"
    by (cases "active_channel s") (simp_all add: card_le_Suc0_iff_eq)
  moreover have "finite {r. active_channel s = Some r}"
    by (cases "active_channel s") simp_all
  ultimately have "card (set (active_rows s)) \<le> 1"
    using card_mono [OF _ sub] by fastforce
  moreover have "distinct (active_rows s)" by (simp add: active_rows_def)
  ultimately show ?thesis by (simp add: distinct_card)
qed

lemma strip_no_outer_space:
  "strip s = [] \<or> (\<not> is_space (hd (strip s)) \<and> \<not> is_space (last (strip s)))"
proof -
  define t where "t = dropWhile is_space s"
  define u where "u = dropWhile is_space (rev t)"
  have st: "strip s = rev u" by (simp add: strip_def t_def u_def)
  show ?thesis
  proof (cases "u = []")
    case True
    then show ?thesis by (simp add: st)
  next
    case False
    then have hu: "\<not> is_space (hd u)" unfolding u_def by (metis hd_dropWhile)
    then have l: "\<not> is_space (last (strip s))" using False by (simp add: st last_rev)
    from False have tne: "t \<noteq> []" unfolding u_def by auto
    then have ht: "\<not> is_space (hd t)" unfolding t_def by (metis hd_dropWhile)
    have "rev t = takeWhile is_space (rev t) @ u" by (simp add: u_def)
    then have "rev (rev t) = rev (takeWhile is_space (rev t) @ u)" by simp
    then have "t = rev u @ rev (takeWhile is_space (rev t))" by simp
    then have "hd t = hd (rev u @ rev (takeWhile is_space (rev t)))" by simp
    also have "\<dots> = hd (rev u)" using False by simp
    finally have "\<not> is_space (hd (strip s))" using ht by (simp add: st)
    with l show ?thesis by simp
  qed
qed

lemma fcard_pos: "0 < fcard A \<longleftrightarrow> A \<noteq> {||}"
proof -
  have "fcard A = 0 \<longleftrightarrow> A = {||}" by (rule fcard_0_eq)
  then show ?thesis by linarith
qed

lemma posts_callback_box:
  assumes "walker_ok s"
    and "channels s \<noteq> [] \<or> (\<forall>a \<in> set atoms. published a \<le> most_recent_activity (boxes s r))"
  obtains s' where "pubsub_posts_callback r atoms s = Inr s'"
    and "active (boxes s' r) = active (boxes s r)"
    and "unread_ids (boxes s' r) =
           (if \<not> active (boxes s r) \<and> most_recent_activity (boxes s r) \<noteq> oldest_date
            then unread_ids (boxes s r) |\<union>| fset_of_list (map atom_id atoms)
            else unread_ids (boxes s r))"
    and "widget_notif (boxes s' r) =
           (if \<not> active (boxes s r) \<and> most_recent_activity (boxes s r) \<noteq> oldest_date
               \<and> unread_ids (boxes s r) |\<union>| fset_of_list (map atom_id atoms) \<noteq> {||}
            then '' ['' @ str_nat (fcard (unread_ids (boxes s r) |\<union>| fset_of_list (map atom_id atoms))) @ '']''
            else widget_notif (boxes s r))"
proof -
  obtain t ch where mr: "most_recent atoms (most_recent_activity (boxes s r)) = (t, ch)"
    by (cases "most_recent atoms (most_recent_activity (boxes s r))")
  let ?s1 = "update_box r (\<lambda>b. b\<lparr>most_recent_activity := t\<rparr>) s"
  from assms(1) have ok1: "walker_ok ?s1" by simp
  obtain s2 where s2: "(if ch then sort_channels ?s1 else Inr ?s1) = Inr s2"
    and b2: "boxes s2 = boxes ?s1"
  proof (cases ch)
    case True
    with mr most_recent_changed [of atoms "most_recent_activity (boxes s r)"]
    have "\<exists>a \<in> set atoms. most_recent_activity (boxes s r) < published a" by simp
    with assms(2) have "channels s \<noteq> []" by fastforce
    then have ne1: "channels ?s1 \<noteq> []" by simp
    from ok1 ne1 obtain s' where "sort_channels ?s1 = Inr s'" "boxes s' = boxes ?s1"
      by (rule sort_channels_returns)
    with True that show ?thesis by simp
  next
    case False
    with that show ?thesis by simp
  qed
  show ?thesis
  proof (rule that)
    show "pubsub_posts_callback r atoms s =
      Inr (notify
               (if active (boxes s2 r)
                then s2\<lparr>threads_list := threads_list s2 @ [AddNewItems atoms]\<rparr>
                else if \<not> (most_recent_activity (boxes s r) = oldest_date)
                then (let s3 = update_box r
                                 (\<lambda>b. b\<lparr>unread_ids := fold (\<lambda>a u. finsert (atom_id a) u) atoms (unread_ids b)\<rparr>) s2;
                          nb_unread = fcard (unread_ids (boxes s3 r))
                      in if nb_unread > 0
                         then update_box r (\<lambda>b. b\<lparr>widget_notif := '' ['' @ str_nat nb_unread @ '']''\<rparr>) s3
                         else s3)
                else s2))"
      using mr s2 by (simp add: pubsub_posts_callback_def Let_def)
  qed (simp_all add: b2 notify_def Let_def fold_finsert_ids fcard_pos)
qed

subsection \<open>The session, evaluated\<close>

lemma state_after_Inr [simp]: "state_after (Inr s) = s"
  by (simp add: state_after_def)

lemma returns_Inr: "returns res \<Longrightarrow> res = Inr (state_after res)"
  by (cases res) (simp_all add: returns_def state_after_def)

lemmas load_eval = load_channels_def init_ui_def modified_def new_box_def
  ChannelBox_init_def split_once_def make_active_def set_active_def update_box_def
  display_config_def list_insert_def state_after_def returns_def Let_def oldest_date_def blank_box_def

lemmas event_eval = pubsub_posts_callback_def pubsub_retract_callback_def most_recent_def
  sort_channels_def get_focus_def sort_reverse_def set_focus_def modified_def update_box_def
  notify_def state_after_def returns_def Let_def oldest_date_def blank_box_def
  probe_atoms_def new_atoms_def str_nat.simps digit_char_def fcard_finsert_if fcard_fempty

lemma loaded_ui_eq:
  "loaded_ui =
     \<lparr> boxes = (\<lambda>_. blank_box)
         (0 := blank_box\<lparr>channel := \<lparr>jid = ''bob@example.org''\<rparr>, widget_user := ''bob'', widget_domain := ''@eo''\<rparr>,
          1 := blank_box\<lparr>channel := \<lparr>jid = ''alice@example.org''\<rparr>, active := True, widget_user := ''alice'',
                 widget_domain := ''@eo'', style_active := True\<rparr>,
          2 := blank_box\<lparr>channel := \<lparr>jid = ''carol@example.long.xyz''\<rparr>, widget_user := ''carol'', widget_domain := ''@elx''\<rparr>),
       next_ref = 3, channels = [RBox 1, RDivider, RBox 0, RBox 2], focus = 0,
       active_channel = Some 1, status = ''Displaying channel alice@example.org...'',
       infobar_left = '' - '', infobar_right = ''alice@example.org'',
       threads_list = [SetActiveChannel \<lparr>jid = ''alice@example.org''\<rparr>], notified = 0 \<rparr>"
  by (simp add: loaded_ui_def example_client_def load_eval numeral_2_eq_2 [symmetric])

lemma loaded_returns: "returns (load_channels example_client init_ui)"
  by (simp add: example_client_def load_eval)

lemma probed_returns: "pubsub_posts_callback 2 probe_atoms loaded_ui = Inr probed_ui"
proof -
  have "returns (pubsub_posts_callback 2 probe_atoms loaded_ui)"
    by (simp add: loaded_ui_eq event_eval)
  then show ?thesis unfolding probed_ui_def by (rule returns_Inr)
qed


lemma posted_returns: "pubsub_posts_callback 2 new_atoms probed_ui = Inr posted_ui"
proof -
  have "returns (pubsub_posts_callback 2 new_atoms probed_ui)"
    by (simp add: probed_ui_def loaded_ui_eq event_eval)
  then show ?thesis unfolding posted_ui_def by (rule returns_Inr)
qed

lemma posted_ui_facts:
  "channels posted_ui = [RBox 1, RDivider, RBox 2, RBox 0]" "focus posted_ui = 0"
  "unread_ids (boxes posted_ui 2) = {|''p1'', ''p2'', ''p3''|}"
  "widget_notif (boxes posted_ui 2) = '' [3]''" "most_recent_activity (boxes posted_ui 2) = 130"
  "\<not> active (boxes posted_ui 2)" "active_channel posted_ui = Some 1"
  by (auto simp add: posted_ui_def probed_ui_def loaded_ui_eq event_eval)

lemma retracted_ui_facts:
  "unread_ids (boxes retracted_ui 2) = {|''p2'', ''p3''|}"
  "widget_notif (boxes retracted_ui 2) = '' [3]''"
  "fcard (unread_ids (boxes retracted_ui 2)) = 2"
  "\<not> active (boxes retracted_ui 2)"
  by (auto simp add: retracted_ui_def posted_ui_def probed_ui_def loaded_ui_eq event_eval)



lemma stranger_loaded:
  "load_channels stranger_client init_ui =
    Inr \<lparr> boxes = (\<lambda>_. blank_box)
         (0 := blank_box\<lparr>channel := \<lparr>jid = ''bob@example.org''\<rparr>, widget_user := ''bob'', widget_domain := ''@eo''\<rparr>,
          1 := blank_box\<lparr>channel := \<lparr>jid = ''carol@example.long.xyz''\<rparr>, widget_user := ''carol'', widget_domain := ''@elx''\<rparr>,
          2 := blank_box\<lparr>channel := \<lparr>jid = ''dave@example.org''\<rparr>, widget_user := ''dave'', widget_domain := ''@eo''\<rparr>),
       next_ref = 3, channels = [RBox 0, RDivider, RBox 1, RBox 2], focus = 0,
       active_channel = None, status = [], infobar_left = [], infobar_right = [],
       threads_list = [], notified = 0 \<rparr>"
  by (simp add: stranger_client_def load_eval numeral_2_eq_2 [symmetric])

section \<open>What holds in every state\<close>

lemma walker_ok_cong:
  "walker_ok s \<Longrightarrow> channels s' = channels s \<Longrightarrow> focus s' = focus s \<Longrightarrow> walker_ok s'"
  by (simp add: walker_ok_def)

lemma walker_ok_modified:
  "box_refs (drop 2 (channels s)) \<noteq> None \<Longrightarrow> walker_ok (modified s)"
  by (cases "channels s = []") (auto simp: walker_ok_def modified_def)

lemma channels_modified [simp]: "channels (modified s) = channels s"
  by (simp add: modified_def)

lemma boxes_modified [simp]: "boxes (modified s) = boxes s"
  by (simp add: modified_def)

lemma active_channel_modified [simp]: "active_channel (modified s) = active_channel s"
  by (simp add: modified_def)

lemma walker_ok_set_focus: "walker_ok s \<Longrightarrow> walker_ok (set_focus pos s)"
  unfolding set_focus_def by (rule walker_ok_modified) (simp add: walker_ok_def)

lemma no_divider_box_refs: "RDivider \<notin> set rows \<Longrightarrow> box_refs rows \<noteq> None"
  by (simp add: box_refs_None)

lemma box_refs_no_divider: "box_refs rows \<noteq> None \<Longrightarrow> RDivider \<notin> set rows"
  by (simp add: box_refs_None)

lemma set_drop_append_subset: "set (drop n (xs @ ys)) \<subseteq> set (drop n xs) \<union> set ys"
  using set_drop_subset [of "n - length xs" ys] by auto

lemma set_drop_update_subset: "set (drop n (xs[i := y])) \<subseteq> insert y (set (drop n xs))"
proof (cases "i < n")
  case True
  then show ?thesis by (auto simp: drop_update_cancel)
next
  case False
  then have "drop n (xs[i := y]) = (drop n xs)[i - n := y]"
    by (simp add: drop_update_swap)
  then show ?thesis using set_update_subset_insert [of "drop n xs" "i - n" y] by simp
qed

lemma sort_channels_walker_ok:
  assumes "walker_ok s"
  shows "walker_ok (state_after (sort_channels s))"
proof (cases "channels s = []")
  case True
  then show ?thesis
    by (simp add: sort_channels_def get_focus_def state_after_def Let_def walker_ok_def modified_def
          sort_reverse_def)
next
  case False
  with assms obtain refs pos where
    d2: "drop 2 (channels s) = map RBox refs" and
    pos: "pos < length (channels s)" and
    eq: "sort_channels s =
       Inr (s\<lparr>channels := take 2 (channels s) @ map RBox (sort_reverse (\<lambda>cb. most_recent_activity (boxes s cb)) refs),
              focus := pos\<rparr>)"
    by (rule sort_channels_ok)
  let ?cs = "take 2 (channels s) @ map RBox (sort_reverse (\<lambda>cb. most_recent_activity (boxes s cb)) refs)"
  have "length ?cs = length (take 2 (channels s) @ drop 2 (channels s))"
    unfolding d2 by simp
  then have len: "length ?cs = length (channels s)" by simp
  have "set (drop 2 ?cs) \<subseteq> set (map RBox (sort_reverse (\<lambda>cb. most_recent_activity (boxes s cb)) refs))"
    by (auto dest: in_set_dropD)
  then have "RDivider \<notin> set (drop 2 ?cs)" by auto
  then have "box_refs (drop 2 ?cs) \<noteq> None" by (rule no_divider_box_refs)
  then show ?thesis
    unfolding eq using pos len by (simp add: walker_ok_def)
qed

lemma sort_channels_frame:
  "set (channels (state_after (sort_channels s))) = set (channels s)"
  "active_channel (state_after (sort_channels s)) = active_channel s"
proof -
  have "set (take 2 (channels s) @ map RBox refs') = set (channels s)"
    if "box_refs (drop 2 (channels s)) = Some refs" and "set refs' = set refs" for refs refs'
  proof -
    from that(1) have d2: "drop 2 (channels s) = map RBox refs" by (simp add: box_refs_Some)
    have "set (take 2 (channels s) @ map RBox refs') = set (take 2 (channels s) @ drop 2 (channels s))"
      unfolding d2 using that(2) by simp
    then show ?thesis by simp
  qed
  then show "set (channels (state_after (sort_channels s))) = set (channels s)"
    by (simp add: sort_channels_def state_after_def Let_def set_focus_def
             split: sum.splits option.splits)
  show "active_channel (state_after (sort_channels s)) = active_channel s"
    by (simp add: sort_channels_def state_after_def Let_def set_focus_def
             split: sum.splits option.splits)
qed

lemma state_after_case:
  "state_after (case res of Inl err \<Rightarrow> Inl err | Inr s \<Rightarrow> Inr (f s)) =
     (if returns res then f (state_after res) else state_after res)"
  by (cases res) (auto simp: state_after_def returns_def)

lemma posts_callback_frame:
  obtains s1 where "channels s1 = channels s" and "focus s1 = focus s"
    and "active_channel s1 = active_channel s"
    and "\<And>x. active (boxes s1 x) = active (boxes s x)"
    and "channels (state_after (pubsub_posts_callback r atoms s)) = channels (state_after (sort_channels s1))
         \<and> focus (state_after (pubsub_posts_callback r atoms s)) = focus (state_after (sort_channels s1))
       \<or> channels (state_after (pubsub_posts_callback r atoms s)) = channels s
         \<and> focus (state_after (pubsub_posts_callback r atoms s)) = focus s"
    and "active_channel (state_after (pubsub_posts_callback r atoms s)) = active_channel s"
    and "\<And>x. active (boxes (state_after (pubsub_posts_callback r atoms s)) x) = active (boxes s x)"
proof -
  obtain t ch where mr: "most_recent atoms (most_recent_activity (boxes s r)) = (t, ch)"
    by (cases "most_recent atoms (most_recent_activity (boxes s r))")
  define s1 where "s1 = update_box r (\<lambda>b. b\<lparr>most_recent_activity := t\<rparr>) s"
  define fin where "fin = (\<lambda>s2. notify
               (if active (boxes s2 r)
                then s2\<lparr>threads_list := threads_list s2 @ [AddNewItems atoms]\<rparr>
                else if \<not> (most_recent_activity (boxes s r) = oldest_date)
                then (let s3 = update_box r
                                 (\<lambda>b. b\<lparr>unread_ids := fold (\<lambda>a u. finsert (atom_id a) u) atoms (unread_ids b)\<rparr>) s2;
                          nb_unread = fcard (unread_ids (boxes s3 r))
                      in if nb_unread > 0
                         then update_box r (\<lambda>b. b\<lparr>widget_notif := '' ['' @ str_nat nb_unread @ '']''\<rparr>) s3
                         else s3)
                else s2))"
  define X where "X = (if ch then sort_channels s1 else Inr s1)"
  have fin: "channels (fin s2) = channels s2" "focus (fin s2) = focus s2"
      "active_channel (fin s2) = active_channel s2"
      "active (boxes (fin s2) x) = active (boxes s2 x)" for s2 x
    by (simp_all add: fin_def notify_def Let_def update_box_def)
  have cb: "pubsub_posts_callback r atoms s =
      (case X of Inl err \<Rightarrow> Inl err | Inr s2 \<Rightarrow> Inr (fin s2))"
    unfolding fin_def X_def s1_def using mr by (simp add: pubsub_posts_callback_def Let_def)
  have s1: "channels s1 = channels s" "focus s1 = focus s" "active_channel s1 = active_channel s"
      "active (boxes s1 x) = active (boxes s x)" for x
    by (simp_all add: s1_def update_box_def)
  have sa: "channels (state_after (pubsub_posts_callback r atoms s)) = channels (state_after X)"
      "focus (state_after (pubsub_posts_callback r atoms s)) = focus (state_after X)"
      "active_channel (state_after (pubsub_posts_callback r atoms s)) = active_channel (state_after X)"
      "active (boxes (state_after (pubsub_posts_callback r atoms s)) x) = active (boxes (state_after X) x)" for x
  proof -
    show "channels (state_after (pubsub_posts_callback r atoms s)) = channels (state_after X)"
      unfolding cb by (cases X) (auto simp: state_after_def fin)
    show "focus (state_after (pubsub_posts_callback r atoms s)) = focus (state_after X)"
      unfolding cb by (cases X) (auto simp: state_after_def fin)
    show "active_channel (state_after (pubsub_posts_callback r atoms s)) = active_channel (state_after X)"
      unfolding cb by (cases X) (auto simp: state_after_def fin)
    show "active (boxes (state_after (pubsub_posts_callback r atoms s)) x) = active (boxes (state_after X) x)"
      unfolding cb by (cases X) (auto simp: state_after_def fin)
  qed
  have X: "state_after X = state_after (sort_channels s1) \<or> state_after X = s1"
    by (simp add: X_def)
  show ?thesis
  proof (rule that [of s1])
    show "channels s1 = channels s" "focus s1 = focus s" "active_channel s1 = active_channel s"
      by (rule s1)+
    show "active (boxes s1 x) = active (boxes s x)" for x by (rule s1)
    show "channels (state_after (pubsub_posts_callback r atoms s)) = channels (state_after (sort_channels s1))
         \<and> focus (state_after (pubsub_posts_callback r atoms s)) = focus (state_after (sort_channels s1))
       \<or> channels (state_after (pubsub_posts_callback r atoms s)) = channels s
         \<and> focus (state_after (pubsub_posts_callback r atoms s)) = focus s"
      using X sa(1,2) s1(1,2) by auto
    show "active_channel (state_after (pubsub_posts_callback r atoms s)) = active_channel s"
      using X sa(3) s1(3) sort_channels_frame(2) [of s1] by auto
    show "active (boxes (state_after (pubsub_posts_callback r atoms s)) x) = active (boxes s x)" for x
      using X sa(4) [of x] s1(4) [of x] by auto
  qed
qed

lemma posts_callback_walker_ok:
  assumes "walker_ok s"
  shows "walker_ok (state_after (pubsub_posts_callback r atoms s))"
proof (rule posts_callback_frame [where s = s and r = r and atoms = atoms])
  fix s1
  assume s1: "channels s1 = channels s" "focus s1 = focus s"
    and d: "channels (state_after (pubsub_posts_callback r atoms s)) = channels (state_after (sort_channels s1))
         \<and> focus (state_after (pubsub_posts_callback r atoms s)) = focus (state_after (sort_channels s1))
       \<or> channels (state_after (pubsub_posts_callback r atoms s)) = channels s
         \<and> focus (state_after (pubsub_posts_callback r atoms s)) = focus s"
  from assms s1 have "walker_ok s1" by (rule walker_ok_cong)
  then have ok: "walker_ok (state_after (sort_channels s1))" by (rule sort_channels_walker_ok)
  from d show "walker_ok (state_after (pubsub_posts_callback r atoms s))"
  proof
    assume a: "channels (state_after (pubsub_posts_callback r atoms s)) = channels (state_after (sort_channels s1))
         \<and> focus (state_after (pubsub_posts_callback r atoms s)) = focus (state_after (sort_channels s1))"
    show ?thesis by (rule walker_ok_cong [OF ok]) (simp_all add: a)
  next
    assume a: "channels (state_after (pubsub_posts_callback r atoms s)) = channels s
         \<and> focus (state_after (pubsub_posts_callback r atoms s)) = focus s"
    show ?thesis by (rule walker_ok_cong [OF assms]) (simp_all add: a)
  qed
qed

lemma retract_callback_frame:
  obtains s2 where "channels s2 = channels s" and "focus s2 = focus s"
    and "active_channel s2 = active_channel s"
    and "\<And>x. active (boxes s2 x) = active (boxes s x)"
    and "pubsub_retract_callback r item_ids s = sort_channels s2"
proof -
  let ?s1 = "update_box r
                 (\<lambda>b. b\<lparr>unread_ids := fold (\<lambda>i u. u |-| {|i|}) item_ids (unread_ids b)\<rparr>) s"
  let ?s2 = "if active (boxes ?s1 r)
                then ?s1\<lparr>threads_list := threads_list ?s1 @ [RemoveItems item_ids]\<rparr>
                else ?s1"
  show ?thesis
  proof (rule that [of ?s2])
    show "pubsub_retract_callback r item_ids s = sort_channels ?s2"
      by (simp add: pubsub_retract_callback_def Let_def)
  qed (simp_all add: update_box_def)
qed

lemma retract_callback_walker_ok:
  assumes "walker_ok s"
  shows "walker_ok (state_after (pubsub_retract_callback r item_ids s))"
proof (rule retract_callback_frame [where s = s and r = r and item_ids = item_ids])
  fix s2
  assume s2: "channels s2 = channels s" "focus s2 = focus s"
    and eq: "pubsub_retract_callback r item_ids s = sort_channels s2"
  from assms s2 have "walker_ok s2" by (rule walker_ok_cong)
  then show "walker_ok (state_after (pubsub_retract_callback r item_ids s))"
    unfolding eq by (rule sort_channels_walker_ok)
qed

lemma make_active_state:
  "channels (state_after (make_active w s)) = channels s"
  "focus (state_after (make_active w s)) = focus s"
  by (cases w; simp add: make_active_def state_after_def Let_def set_active_def
        display_config_def update_box_def split: option.splits)+

lemma make_active_walker_ok:
  "walker_ok s \<Longrightarrow> walker_ok (state_after (make_active w s))"
  by (erule walker_ok_cong) (rule make_active_state)+

lemma keypress_enter_cases:
  "state_after (keypress_enter s) = s
   \<or> (\<exists>w. state_after (keypress_enter s) = state_after (make_active w s))"
proof (cases "get_focus s")
  case (Inl e)
  then show ?thesis by (simp add: keypress_enter_def state_after_def)
next
  case (Inr fw)
  then show ?thesis
    by (cases fw) (auto simp: keypress_enter_def state_after_def)
qed

lemma keypress_enter_walker_ok:
  assumes "walker_ok s"
  shows "walker_ok (state_after (keypress_enter s))"
  using keypress_enter_cases [of s]
proof (elim disjE exE)
  assume "state_after (keypress_enter s) = s"
  with assms show ?thesis by simp
next
  fix w assume st: "state_after (keypress_enter s) = state_after (make_active w s)"
  from assms show ?thesis unfolding st by (rule make_active_walker_ok)
qed

lemma set_config_state:
  "channels (set_config strftime r conf s) = channels s"
  "focus (set_config strftime r conf s) = focus s"
  "active_channel (set_config strftime r conf s) = active_channel s"
  "active (boxes (set_config strftime r conf s) x) = active (boxes s x)"
  by (simp_all add: set_config_def display_config_def update_box_def Let_def split: option.splits)

lemma new_box_walker:
  assumes "walker_ok s" and "new_box chan s = Inr (w, s1)"
  shows "walker_ok (modified (s1\<lparr>channels := channels s1 @ [RBox w]\<rparr>))"
    and "walker_ok (modified (s1\<lparr>channels := (channels s1)[idx := RBox w]\<rparr>))"
proof -
  from assms(2) have cs: "channels s1 = channels s"
    by (auto simp: new_box_def split: sum.splits)
  from assms(1) have nd: "RDivider \<notin> set (drop 2 (channels s))"
    by (simp add: walker_ok_def box_refs_no_divider)
  from nd set_drop_append_subset [of 2 "channels s" "[RBox w]"]
  have "RDivider \<notin> set (drop 2 (channels s @ [RBox w]))" by auto
  then have "box_refs (drop 2 (channels s @ [RBox w])) \<noteq> None" by (rule no_divider_box_refs)
  then show "walker_ok (modified (s1\<lparr>channels := channels s1 @ [RBox w]\<rparr>))"
    using cs by (intro walker_ok_modified) simp
  from nd set_drop_update_subset [of 2 "channels s" idx "RBox w"]
  have "RDivider \<notin> set (drop 2 ((channels s)[idx := RBox w]))" by auto
  then have "box_refs (drop 2 ((channels s)[idx := RBox w])) \<noteq> None" by (rule no_divider_box_refs)
  then show "walker_ok (modified (s1\<lparr>channels := (channels s1)[idx := RBox w]\<rparr>))"
    using cs by (intro walker_ok_modified) simp
qed

lemma reset_cases:
  "state_after (reset cl s) = s
   \<or> (\<exists>chan w s1 idx. new_box chan s = Inr (w, s1)
        \<and> state_after (reset cl s) =
            state_after (make_active (RBox w) (modified (s1\<lparr>channels := (channels s1)[idx := RBox w]\<rparr>))))"
proof (cases "active_channel s")
  case None
  then show ?thesis by (simp add: reset_def state_after_def)
next
  case (Some chan_box)
  show ?thesis
  proof (cases "index_of (channels s) (RBox chan_box)")
    case None
    with Some show ?thesis by (simp add: reset_def state_after_def)
  next
    case idx: (Some idx)
    show ?thesis
    proof (cases "get_channel cl (jid (channel (boxes s chan_box))) True")
      case (Inl e)
      with Some idx show ?thesis by (simp add: reset_def state_after_def)
    next
      case (Inr new_chan)
      show ?thesis
      proof (cases "new_box new_chan s")
        case (Inl e)
        with Some idx Inr show ?thesis by (simp add: reset_def state_after_def)
      next
        case nb: (Inr p)
        obtain w s1 where p: "p = (w, s1)" by (cases p)
        from Some idx Inr nb p have "state_after (reset cl s) =
            state_after (make_active (RBox w) (modified (s1\<lparr>channels := (channels s1)[idx := RBox w]\<rparr>)))"
          by (simp add: reset_def)
        with nb p show ?thesis by blast
      qed
    qed
  qed
qed

lemma goto_cases:
  "state_after (goto cl j s) = s
   \<or> (\<exists>idx. state_after (goto cl j s) = state_after (make_active (channels s ! idx) (set_focus idx s)))
   \<or> (\<exists>chan w s1 idx. new_box chan s = Inr (w, s1)
        \<and> state_after (goto cl j s) =
            state_after (make_active (RBox w)
              (set_focus idx (modified (s1\<lparr>channels := channels s1 @ [RBox w]\<rparr>)))))"
proof (cases "find_jid (boxes s) (strip j) (channels s)")
  case (Some idx)
  then show ?thesis by (auto simp: goto_def Let_def)
next
  case None
  show ?thesis
  proof (cases "get_channel cl (strip j) False")
    case (Inl e)
    with None show ?thesis by (simp add: goto_def state_after_def Let_def)
  next
    case (Inr ch)
    show ?thesis
    proof (cases "new_box ch s")
      case (Inl e)
      with None Inr show ?thesis by (simp add: goto_def state_after_def Let_def)
    next
      case nb: (Inr p)
      obtain w s1 where p: "p = (w, s1)" by (cases p)
      have "(channels s1 @ [RBox w]) ! (length (channels s1 @ [RBox w]) - 1) = RBox w"
        by simp
      with None Inr nb p have "state_after (goto cl j s) =
            state_after (make_active (RBox w)
              (set_focus (length (channels s1)) (modified (s1\<lparr>channels := channels s1 @ [RBox w]\<rparr>))))"
        by (simp add: goto_def Let_def)
      with nb p show ?thesis by blast
    qed
  qed
qed

lemma add_channels_preserves:
  assumes "Q s"
    and app: "\<And>s chan w s1. Q s \<Longrightarrow> new_box chan s = Inr (w, s1) \<Longrightarrow>
                Q (modified (s1\<lparr>channels := channels s1 @ [RBox w]\<rparr>))"
    and ins: "\<And>s chan w s1. Q s \<Longrightarrow> new_box chan s = Inr (w, s1) \<Longrightarrow>
                Q (state_after (make_active (RBox w)
                     (modified (s1\<lparr>channels := list_insert 0 (RBox w) (channels s1)\<rparr>))))"
  shows "Q (state_after (add_channels me chans s))"
  using assms(1)
proof (induction chans arbitrary: s)
  case Nil
  then show ?case by simp
next
  case (Cons chan chans)
  show ?case
  proof (cases "new_box chan s")
    case (Inl e)
    with Cons.prems show ?thesis by (simp add: state_after_def)
  next
    case (Inr p)
    obtain w s1 where p: "p = (w, s1)" by (cases p)
    show ?thesis
    proof (cases "jid chan = me")
      case True
      let ?s2 = "modified (s1\<lparr>channels := list_insert 0 (RBox w) (channels s1)\<rparr>)"
      obtain s3 where s3: "make_active (RBox w) ?s2 = Inr s3"
        using make_active_box_returns [of w ?s2] by (auto simp: returns_def split: sum.splits)
      from ins [OF Cons.prems] Inr p have "Q (state_after (make_active (RBox w) ?s2))" by simp
      then have "Q s3" by (simp add: s3)
      from Cons.IH [OF this] Inr p True s3
      show ?thesis by simp
    next
      case False
      from app [OF Cons.prems] Inr p
      have "Q (modified (s1\<lparr>channels := channels s1 @ [RBox w]\<rparr>))" by simp
      from Cons.IH [OF this] Inr p False show ?thesis by simp
    qed
  qed
qed

lemma load_channels_cases:
  "state_after (load_channels cl s) = s
   \<or> (\<exists>chans. \<not> returns (add_channels (boundjid_bare cl) chans (modified (s\<lparr>channels := []\<rparr>)))
        \<and> state_after (load_channels cl s) =
             state_after (add_channels (boundjid_bare cl) chans (modified (s\<lparr>channels := []\<rparr>))))
   \<or> (\<exists>chans s1. s1 = state_after (add_channels (boundjid_bare cl) chans (modified (s\<lparr>channels := []\<rparr>)))
        \<and> state_after (load_channels cl s) =
             modified (s1\<lparr>channels := list_insert 1 RDivider (channels s1)\<rparr>))"
proof (cases "get_own_channel cl")
  case (Inl e)
  then show ?thesis by (simp add: load_channels_def state_after_def)
next
  case (Inr user_chan)
  show ?thesis
  proof (cases "get_subscriptions cl user_chan")
    case (Inl e)
    with Inr show ?thesis by (simp add: load_channels_def state_after_def)
  next
    case chans: (Inr chans)
    show ?thesis
    proof (cases "add_channels (boundjid_bare cl) chans (modified (s\<lparr>channels := []\<rparr>))")
      case (Inl err)
      with Inr chans have "state_after (load_channels cl s) =
         state_after (add_channels (boundjid_bare cl) chans (modified (s\<lparr>channels := []\<rparr>)))"
        by (simp add: load_channels_def state_after_def)
      moreover from Inl have "\<not> returns (add_channels (boundjid_bare cl) chans (modified (s\<lparr>channels := []\<rparr>)))"
        by (simp add: returns_def)
      ultimately show ?thesis by blast
    next
      case s1: (Inr s1)
      with Inr chans have "state_after (load_channels cl s) =
           modified (s1\<lparr>channels := list_insert 1 RDivider (channels s1)\<rparr>)"
        by (simp add: load_channels_def)
      moreover from s1 have "s1 = state_after (add_channels (boundjid_bare cl) chans (modified (s\<lparr>channels := []\<rparr>)))"
        by simp
      ultimately show ?thesis by blast
    qed
  qed
qed

text \<open>No divider in the list, and the focus on a row of it.\<close>

lemma plain_rows_add:
  assumes "RDivider \<notin> set (channels s) \<and> (channels s = [] \<or> focus s < length (channels s))"
  shows "RDivider \<notin> set (channels (state_after (add_channels me chans s)))
       \<and> (channels (state_after (add_channels me chans s)) = []
          \<or> focus (state_after (add_channels me chans s)) < length (channels (state_after (add_channels me chans s))))"
proof (rule add_channels_preserves [where Q = "\<lambda>s. RDivider \<notin> set (channels s) \<and> (channels s = [] \<or> focus s < length (channels s))"])
  show "RDivider \<notin> set (channels s) \<and> (channels s = [] \<or> focus s < length (channels s))"
    by (rule assms)
next
  fix s chan w s1
  assume q: "RDivider \<notin> set (channels s) \<and> (channels s = [] \<or> focus s < length (channels s))"
    and nb: "new_box chan s = Inr (w, s1)"
  from nb have cs: "channels s1 = channels s" "focus s1 = focus s"
    by (auto simp: new_box_def split: sum.splits)
  show "RDivider \<notin> set (channels (modified (s1\<lparr>channels := channels s1 @ [RBox w]\<rparr>)))
       \<and> (channels (modified (s1\<lparr>channels := channels s1 @ [RBox w]\<rparr>)) = []
          \<or> focus (modified (s1\<lparr>channels := channels s1 @ [RBox w]\<rparr>))
              < length (channels (modified (s1\<lparr>channels := channels s1 @ [RBox w]\<rparr>))))"
    using q cs by (auto simp: modified_def)
  show "RDivider \<notin> set (channels (state_after (make_active (RBox w) (modified (s1\<lparr>channels := list_insert 0 (RBox w) (channels s1)\<rparr>)))))
       \<and> (channels (state_after (make_active (RBox w) (modified (s1\<lparr>channels := list_insert 0 (RBox w) (channels s1)\<rparr>)))) = []
          \<or> focus (state_after (make_active (RBox w) (modified (s1\<lparr>channels := list_insert 0 (RBox w) (channels s1)\<rparr>))))
              < length (channels (state_after (make_active (RBox w) (modified (s1\<lparr>channels := list_insert 0 (RBox w) (channels s1)\<rparr>))))))"
    unfolding make_active_state using q cs by (auto simp: modified_def list_insert_def)
qed

lemma load_channels_walker_ok:
  assumes "walker_ok s"
  shows "walker_ok (state_after (load_channels cl s))"
proof -
  let ?e = "modified (s\<lparr>channels := []\<rparr>)"
  have e: "RDivider \<notin> set (channels ?e) \<and> (channels ?e = [] \<or> focus ?e < length (channels ?e))"
    by simp
  have plain: "RDivider \<notin> set (channels (state_after (add_channels me chans ?e)))
       \<and> (channels (state_after (add_channels me chans ?e)) = []
          \<or> focus (state_after (add_channels me chans ?e)) < length (channels (state_after (add_channels me chans ?e))))"
    for me chans
    by (rule plain_rows_add [OF e])
  have w1: "walker_ok (state_after (add_channels me chans ?e))" for me chans
  proof -
    from plain [of me chans]
    have "RDivider \<notin> set (drop 2 (channels (state_after (add_channels me chans ?e))))"
      by (auto dest: in_set_dropD)
    then have "box_refs (drop 2 (channels (state_after (add_channels me chans ?e)))) \<noteq> None"
      by (rule no_divider_box_refs)
    with plain [of me chans] show ?thesis by (simp add: walker_ok_def)
  qed
  have w2: "walker_ok (modified (s1\<lparr>channels := list_insert 1 RDivider (channels s1)\<rparr>))"
    if "s1 = state_after (add_channels me chans ?e)" for s1 me chans
  proof (rule walker_ok_modified)
    from plain [of me chans] that have nd: "RDivider \<notin> set (channels s1)" by simp
    have "set (drop 2 (list_insert 1 RDivider (channels s1))) \<subseteq> set (channels s1)"
      by (cases "channels s1") (auto simp: list_insert_def)
    with nd have "RDivider \<notin> set (drop 2 (list_insert 1 RDivider (channels s1)))" by auto
    then show "box_refs (drop 2 (channels (s1\<lparr>channels := list_insert 1 RDivider (channels s1)\<rparr>))) \<noteq> None"
      by (simp add: no_divider_box_refs)
  qed
  from load_channels_cases [of cl s] show ?thesis
  proof (elim disjE exE conjE)
    assume "state_after (load_channels cl s) = s"
    with assms show ?thesis by simp
  next
    fix chans
    assume "state_after (load_channels cl s) = state_after (add_channels (boundjid_bare cl) chans ?e)"
    with w1 show ?thesis by simp
  next
    fix chans s1
    assume "s1 = state_after (add_channels (boundjid_bare cl) chans ?e)"
      and "state_after (load_channels cl s) = modified (s1\<lparr>channels := list_insert 1 RDivider (channels s1)\<rparr>)"
    with w2 show ?thesis by simp
  qed
qed

lemma reset_walker_ok:
  assumes "walker_ok s"
  shows "walker_ok (state_after (reset cl s))"
  using reset_cases [of cl s]
proof (elim disjE exE conjE)
  assume "state_after (reset cl s) = s"
  with assms show ?thesis by simp
next
  fix chan w s1 idx
  assume nb: "new_box chan s = Inr (w, s1)"
    and st: "state_after (reset cl s) =
            state_after (make_active (RBox w) (modified (s1\<lparr>channels := (channels s1)[idx := RBox w]\<rparr>)))"
  from new_box_walker(2) [OF assms nb]
  have "walker_ok (modified (s1\<lparr>channels := (channels s1)[idx := RBox w]\<rparr>))" .
  then show ?thesis unfolding st by (rule make_active_walker_ok)
qed

lemma goto_walker_ok:
  assumes "walker_ok s"
  shows "walker_ok (state_after (goto cl j s))"
  using goto_cases [of cl j s]
proof (elim disjE exE conjE)
  assume "state_after (goto cl j s) = s"
  with assms show ?thesis by simp
next
  fix idx
  assume st: "state_after (goto cl j s) = state_after (make_active (channels s ! idx) (set_focus idx s))"
  from assms have "walker_ok (set_focus idx s)" by (rule walker_ok_set_focus)
  then show ?thesis unfolding st by (rule make_active_walker_ok)
next
  fix chan w s1 idx
  assume nb: "new_box chan s = Inr (w, s1)"
    and st: "state_after (goto cl j s) =
            state_after (make_active (RBox w)
              (set_focus idx (modified (s1\<lparr>channels := channels s1 @ [RBox w]\<rparr>))))"
  from new_box_walker(1) [OF assms nb]
  have "walker_ok (modified (s1\<lparr>channels := channels s1 @ [RBox w]\<rparr>))" .
  then have "walker_ok (set_focus idx (modified (s1\<lparr>channels := channels s1 @ [RBox w]\<rparr>)))"
    by (rule walker_ok_set_focus)
  then show ?thesis unfolding st by (rule make_active_walker_ok)
qed

lemma perform_walker_ok:
  assumes "walker_ok s"
  shows "walker_ok (state_after (perform strftime a s))"
proof (cases a)
  case (Load cl)
  with assms show ?thesis by (simp add: load_channels_walker_ok)
next
  case (Posts r atoms)
  with assms show ?thesis by (simp add: posts_callback_walker_ok)
next
  case (Retract r item_ids)
  with assms show ?thesis by (simp add: retract_callback_walker_ok)
next
  case (Status r a)
  with assms show ?thesis
    by (simp add: pubsub_status_callback_def notify_def update_box_def walker_ok_def)
next
  case (Config r conf)
  have "walker_ok (notify (set_config strftime r conf s))"
    using assms by (rule walker_ok_cong) (simp_all add: notify_def set_config_state)
  with Config show ?thesis by (simp add: pubsub_config_clalback_def)
next
  case (MakeActive w)
  with assms show ?thesis by (simp add: make_active_walker_ok)
next
  case Enter
  with assms show ?thesis by (simp add: keypress_enter_walker_ok)
next
  case (Reset cl)
  with assms show ?thesis by (simp add: reset_walker_ok)
next
  case (Goto cl j)
  with assms show ?thesis by (simp add: goto_walker_ok)
next
  case Sort
  with assms show ?thesis by (simp add: sort_channels_walker_ok)
qed

lemma exclusive_cong:
  assumes "exclusive s" and "set (channels s') \<subseteq> set (channels s)"
    and "active_channel s' = active_channel s"
    and "\<And>x. active (boxes s' x) = active (boxes s x)"
  shows "exclusive s'"
  unfolding exclusive_def
proof
  fix w assume "w \<in> set (channels s')"
  with assms(2) have "w \<in> set (channels s)" by auto
  with assms(1) have "case w of RBox r \<Rightarrow> active (boxes s r) \<longrightarrow> active_channel s = Some r | RDivider \<Rightarrow> True"
    by (simp add: exclusive_def)
  then show "case w of RBox r \<Rightarrow> active (boxes s' r) \<longrightarrow> active_channel s' = Some r | RDivider \<Rightarrow> True"
    by (cases w) (simp_all add: assms(3,4))
qed

lemma exclusive_new_box:
  assumes "exclusive s" and "new_box chan s = Inr (w, s1)"
    and "set cs \<subseteq> insert (RBox w) (set (channels s))"
  shows "exclusive (modified (s1\<lparr>channels := cs\<rparr>))"
proof -
  from assms(2) obtain b where b: "ChannelBox_init chan = Inr b"
    and s1: "s1 = s\<lparr>boxes := (boxes s)(next_ref s := b), next_ref := next_ref s + 1\<rparr>"
    and w: "w = next_ref s"
    by (rule new_box_fields)
  from ChannelBox_init_fields(3) [OF b] have nb: "\<not> active b" .
  show ?thesis
    unfolding exclusive_def
  proof
    fix row assume "row \<in> set (channels (modified (s1\<lparr>channels := cs\<rparr>)))"
    then have "row \<in> set cs" by simp
    with assms(3) have mem: "row = RBox w \<or> row \<in> set (channels s)" by auto
    show "case row of
            RBox r \<Rightarrow> active (boxes (modified (s1\<lparr>channels := cs\<rparr>)) r) \<longrightarrow>
                      active_channel (modified (s1\<lparr>channels := cs\<rparr>)) = Some r
          | RDivider \<Rightarrow> True"
    proof (cases row)
      case (RBox r)
      show ?thesis
      proof (cases "r = w")
        case True
        with RBox nb s1 w show ?thesis by simp
      next
        case False
        with RBox mem have "RBox r \<in> set (channels s)" by simp
        with assms(1) have "active (boxes s r) \<longrightarrow> active_channel s = Some r"
          by (auto simp: exclusive_def)
        with RBox False s1 w show ?thesis by simp
      qed
    next
      case RDivider
      then show ?thesis by simp
    qed
  qed
qed

lemma make_active_any_exclusive:
  assumes "exclusive s"
  shows "exclusive (state_after (make_active w s))"
proof (cases w)
  case (RBox r)
  obtain s' where s': "make_active (RBox r) s = Inr s'"
    using make_active_box_returns [of r s] by (auto simp: returns_def split: sum.splits)
  from make_active_exclusive [OF assms s'] RBox s' show ?thesis by simp
next
  case RDivider
  with assms show ?thesis by (simp add: make_active_def state_after_def)
qed

lemma sort_channels_exclusive:
  assumes "exclusive s"
  shows "exclusive (state_after (sort_channels s))"
  using assms
proof (rule exclusive_cong)
  show "set (channels (state_after (sort_channels s))) \<subseteq> set (channels s)"
    by (simp add: sort_channels_frame(1))
  show "active_channel (state_after (sort_channels s)) = active_channel s"
    by (rule sort_channels_frame(2))
  show "active (boxes (state_after (sort_channels s)) x) = active (boxes s x)" for x
    by simp
qed

lemma posts_callback_exclusive:
  assumes "exclusive s"
  shows "exclusive (state_after (pubsub_posts_callback r atoms s))"
proof (rule posts_callback_frame [where s = s and r = r and atoms = atoms])
  fix s1
  assume s1: "channels s1 = channels s"
    and d: "channels (state_after (pubsub_posts_callback r atoms s)) = channels (state_after (sort_channels s1))
         \<and> focus (state_after (pubsub_posts_callback r atoms s)) = focus (state_after (sort_channels s1))
       \<or> channels (state_after (pubsub_posts_callback r atoms s)) = channels s
         \<and> focus (state_after (pubsub_posts_callback r atoms s)) = focus s"
    and ac: "active_channel (state_after (pubsub_posts_callback r atoms s)) = active_channel s"
    and act: "\<And>x. active (boxes (state_after (pubsub_posts_callback r atoms s)) x) = active (boxes s x)"
  have sub: "set (channels (state_after (pubsub_posts_callback r atoms s))) \<subseteq> set (channels s)"
    using d
  proof
    assume "channels (state_after (pubsub_posts_callback r atoms s)) = channels (state_after (sort_channels s1))
         \<and> focus (state_after (pubsub_posts_callback r atoms s)) = focus (state_after (sort_channels s1))"
    then have "set (channels (state_after (pubsub_posts_callback r atoms s))) = set (channels s1)"
      by (simp add: sort_channels_frame(1))
    then show ?thesis by (simp add: s1)
  next
    assume "channels (state_after (pubsub_posts_callback r atoms s)) = channels s
         \<and> focus (state_after (pubsub_posts_callback r atoms s)) = focus s"
    then show ?thesis by simp
  qed
  from assms sub ac act show "exclusive (state_after (pubsub_posts_callback r atoms s))"
    by (rule exclusive_cong)
qed

lemma retract_callback_exclusive:
  assumes "exclusive s"
  shows "exclusive (state_after (pubsub_retract_callback r item_ids s))"
proof (rule retract_callback_frame [where s = s and r = r and item_ids = item_ids])
  fix s2
  assume s2: "channels s2 = channels s"
    and ac: "active_channel s2 = active_channel s"
    and act: "\<And>x. active (boxes s2 x) = active (boxes s x)"
    and eq: "pubsub_retract_callback r item_ids s = sort_channels s2"
  have sub: "set (channels s2) \<subseteq> set (channels s)" by (simp add: s2)
  from assms sub ac act have "exclusive s2" by (rule exclusive_cong)
  then show "exclusive (state_after (pubsub_retract_callback r item_ids s))"
    unfolding eq by (rule sort_channels_exclusive)
qed

lemma keypress_enter_exclusive:
  assumes "exclusive s"
  shows "exclusive (state_after (keypress_enter s))"
  using keypress_enter_cases [of s]
proof (elim disjE exE)
  assume "state_after (keypress_enter s) = s"
  with assms show ?thesis by simp
next
  fix w assume st: "state_after (keypress_enter s) = state_after (make_active w s)"
  from assms show ?thesis unfolding st by (rule make_active_any_exclusive)
qed

lemma exclusive_set_focus: "exclusive s \<Longrightarrow> exclusive (set_focus pos s)"
  by (erule exclusive_cong) (simp_all add: set_focus_def)

lemma reset_exclusive:
  assumes "exclusive s"
  shows "exclusive (state_after (reset cl s))"
  using reset_cases [of cl s]
proof (elim disjE exE conjE)
  assume "state_after (reset cl s) = s"
  with assms show ?thesis by simp
next
  fix chan w s1 idx
  assume nb: "new_box chan s = Inr (w, s1)"
    and st: "state_after (reset cl s) =
            state_after (make_active (RBox w) (modified (s1\<lparr>channels := (channels s1)[idx := RBox w]\<rparr>)))"
  from nb have cs: "channels s1 = channels s" by (auto simp: new_box_def split: sum.splits)
  have "set ((channels s1)[idx := RBox w]) \<subseteq> insert (RBox w) (set (channels s))"
    unfolding cs by (rule set_update_subset_insert)
  from exclusive_new_box [OF assms nb this]
  show ?thesis unfolding st by (rule make_active_any_exclusive)
qed

lemma goto_exclusive:
  assumes "exclusive s"
  shows "exclusive (state_after (goto cl j s))"
  using goto_cases [of cl j s]
proof (elim disjE exE conjE)
  assume "state_after (goto cl j s) = s"
  with assms show ?thesis by simp
next
  fix idx
  assume st: "state_after (goto cl j s) = state_after (make_active (channels s ! idx) (set_focus idx s))"
  from assms have "exclusive (set_focus idx s)" by (rule exclusive_set_focus)
  then show ?thesis unfolding st by (rule make_active_any_exclusive)
next
  fix chan w s1 idx
  assume nb: "new_box chan s = Inr (w, s1)"
    and st: "state_after (goto cl j s) =
            state_after (make_active (RBox w)
              (set_focus idx (modified (s1\<lparr>channels := channels s1 @ [RBox w]\<rparr>))))"
  from nb have cs: "channels s1 = channels s" by (auto simp: new_box_def split: sum.splits)
  have "set (channels s1 @ [RBox w]) \<subseteq> insert (RBox w) (set (channels s))"
    unfolding cs by auto
  from exclusive_new_box [OF assms nb this]
  have "exclusive (set_focus idx (modified (s1\<lparr>channels := channels s1 @ [RBox w]\<rparr>)))"
    by (rule exclusive_set_focus)
  then show ?thesis unfolding st by (rule make_active_any_exclusive)
qed

lemma add_channels_exclusive:
  assumes "exclusive s"
  shows "exclusive (state_after (add_channels me chans s))"
  using assms
proof (rule add_channels_preserves)
  fix s chan w s1
  assume ex: "exclusive s" and nb: "new_box chan s = Inr (w, s1)"
  from nb have cs: "channels s1 = channels s" by (auto simp: new_box_def split: sum.splits)
  have "set (channels s1 @ [RBox w]) \<subseteq> insert (RBox w) (set (channels s))"
    unfolding cs by auto
  from exclusive_new_box [OF ex nb this]
  show "exclusive (modified (s1\<lparr>channels := channels s1 @ [RBox w]\<rparr>))" .
  have "set (list_insert 0 (RBox w) (channels s1)) \<subseteq> insert (RBox w) (set (channels s))"
    unfolding cs by (auto simp: list_insert_def)
  from exclusive_new_box [OF ex nb this]
  show "exclusive (state_after (make_active (RBox w)
          (modified (s1\<lparr>channels := list_insert 0 (RBox w) (channels s1)\<rparr>))))"
    by (rule make_active_any_exclusive)
qed

lemma load_channels_exclusive:
  assumes "exclusive s"
  shows "exclusive (state_after (load_channels cl s))"
proof -
  let ?e = "modified (s\<lparr>channels := []\<rparr>)"
  have "exclusive ?e" by (simp add: exclusive_def)
  then have ex: "exclusive (state_after (add_channels me chans ?e))" for me chans
    by (rule add_channels_exclusive)
  from load_channels_cases [of cl s] show ?thesis
  proof (elim disjE exE conjE)
    assume "state_after (load_channels cl s) = s"
    with assms show ?thesis by simp
  next
    fix chans
    assume "state_after (load_channels cl s) = state_after (add_channels (boundjid_bare cl) chans ?e)"
    with ex show ?thesis by simp
  next
    fix chans s1
    assume s1: "s1 = state_after (add_channels (boundjid_bare cl) chans ?e)"
      and st: "state_after (load_channels cl s) = modified (s1\<lparr>channels := list_insert 1 RDivider (channels s1)\<rparr>)"
    from ex [of "boundjid_bare cl" chans] s1 have "exclusive s1" by simp
    have "exclusive (modified (s1\<lparr>channels := list_insert 1 RDivider (channels s1)\<rparr>))"
      unfolding exclusive_def
    proof
      fix w assume "w \<in> set (channels (modified (s1\<lparr>channels := list_insert 1 RDivider (channels s1)\<rparr>)))"
      then have "w \<in> set (take 1 (channels s1)) \<union> {RDivider} \<union> set (drop 1 (channels s1))"
        by (simp add: list_insert_def)
      then have "w = RDivider \<or> w \<in> set (channels s1)"
        by (auto dest: in_set_takeD in_set_dropD)
      with \<open>exclusive s1\<close>
      show "case w of
              RBox r \<Rightarrow> active (boxes (modified (s1\<lparr>channels := list_insert 1 RDivider (channels s1)\<rparr>)) r) \<longrightarrow>
                        active_channel (modified (s1\<lparr>channels := list_insert 1 RDivider (channels s1)\<rparr>)) = Some r
            | RDivider \<Rightarrow> True"
        by (cases w) (auto simp: exclusive_def)
    qed
    with st show ?thesis by simp
  qed
qed

lemma perform_exclusive:
  assumes "exclusive s"
  shows "exclusive (state_after (perform strftime a s))"
proof (cases a)
  case (Load cl)
  with assms show ?thesis by (simp add: load_channels_exclusive)
next
  case (Posts r atoms)
  with assms show ?thesis by (simp add: posts_callback_exclusive)
next
  case (Retract r item_ids)
  with assms show ?thesis by (simp add: retract_callback_exclusive)
next
  case (Status r a)
  have "exclusive (pubsub_status_callback r a s)"
    using assms
    by (rule exclusive_cong) (simp_all add: pubsub_status_callback_def notify_def update_box_def)
  with Status show ?thesis by simp
next
  case (Config r conf)
  have "exclusive (notify (set_config strftime r conf s))"
    using assms by (rule exclusive_cong) (simp_all add: notify_def set_config_state)
  with Config show ?thesis by (simp add: pubsub_config_clalback_def)
next
  case (MakeActive w)
  with assms show ?thesis by (simp add: make_active_any_exclusive)
next
  case Enter
  with assms show ?thesis by (simp add: keypress_enter_exclusive)
next
  case (Reset cl)
  with assms show ?thesis by (simp add: reset_exclusive)
next
  case (Goto cl j)
  with assms show ?thesis by (simp add: goto_exclusive)
next
  case Sort
  with assms show ?thesis by (simp add: sort_channels_exclusive)
qed

text \<open>Whatever the user interface has done since it was created, its list walker is well
  formed and every active box of the list is \<^verbatim>\<open>active_channel\<close>.\<close>

lemma run_invariants:
  assumes "walker_ok s" and "exclusive s"
  shows "walker_ok (run strftime acts s) \<and> exclusive (run strftime acts s)"
  using assms
proof (induction acts arbitrary: s)
  case Nil
  then show ?case by (simp add: run_def)
next
  case (Cons a acts)
  from Cons.prems have "walker_ok (state_after (perform strftime a s))"
    and "exclusive (state_after (perform strftime a s))"
    by (simp_all add: perform_walker_ok perform_exclusive)
  from Cons.IH [OF this] show ?case by (simp add: run_def)
qed

lemma init_ui_invariants: "walker_ok init_ui \<and> exclusive init_ui"
  by (simp add: walker_ok_def exclusive_def init_ui_def)

lemma reachable_invariants:
  "walker_ok (run strftime acts init_ui) \<and> exclusive (run strftime acts init_ui)"
  using init_ui_invariants by (intro run_invariants) simp_all

section \<open>The order of the list\<close>

lemma take2_append_sorted:
  assumes "drop 2 cs = map RBox refs" and "length xs = length refs"
  shows "drop 2 (take 2 cs @ map RBox xs) = map RBox xs"
    and "take 2 (take 2 cs @ map RBox xs) = take 2 cs"
    and "length (take 2 cs @ map RBox xs) = length cs"
proof -
  have len: "length (take 2 cs @ map RBox xs) = length (take 2 cs @ drop 2 cs)"
    unfolding assms(1) by (simp add: assms(2))
  then show "length (take 2 cs @ map RBox xs) = length cs" by simp
  show "drop 2 (take 2 cs @ map RBox xs) = map RBox xs"
  proof (cases "2 \<le> length cs")
    case True
    then show ?thesis by simp
  next
    case False
    with assms(1) have "refs = []" by simp
    with assms(2) show ?thesis by simp
  qed
  show "take 2 (take 2 cs @ map RBox xs) = take 2 cs"
  proof (cases "2 \<le> length cs")
    case True
    then show ?thesis by simp
  next
    case False
    with assms(1) have "refs = []" by simp
    with assms(2) show ?thesis by simp
  qed
qed

lemma self_first_take:
  assumes "take 2 (channels s') = take 2 (channels s)"
    and "\<And>x. channel (boxes s' x) = channel (boxes s x)"
  shows "self_first me s' = self_first me s"
proof (cases "channels s")
  case Nil
  with assms(1) have "channels s' = []" by simp
  with Nil show ?thesis by (simp add: self_first_def)
next
  case (Cons w ws)
  with assms(1) obtain ws' where "channels s' = w # ws'"
    by (cases "channels s'") auto
  with Cons show ?thesis by (cases w) (simp_all add: self_first_def assms(2))
qed

lemma divider_second_take:
  assumes "take 2 (channels s') = take 2 (channels s)"
  shows "divider_second s' = divider_second s"
proof -
  have d: "divider_second t \<longleftrightarrow>
        1 < length (take 2 (channels t)) \<and> take 2 (channels t) ! 1 = RDivider" for t
    by (auto simp: divider_second_def)
  show ?thesis unfolding d assms ..
qed

lemma resorted_rows:
  assumes ok: "walker_ok s" and ne: "channels s \<noteq> []"
    and d2: "drop 2 (channels s) = map RBox refs"
    and cs': "channels s' = take 2 (channels s)
                @ map RBox (sort_reverse (\<lambda>cb. most_recent_activity (boxes s' cb)) refs)"
    and foc: "focus s' < length (channels s)"
  shows "walker_ok s'" and "channels s' \<noteq> []" and "sorted_by_activity s'"
    and "order_kept s s'" and "take 2 (channels s') = take 2 (channels s)"
proof -
  let ?k = "\<lambda>cb. most_recent_activity (boxes s' cb)"
  have l: "length (sort_reverse ?k refs) = length refs" by simp
  note t = take2_append_sorted [OF d2 l]
  have d': "drop 2 (channels s') = map RBox (sort_reverse ?k refs)"
    unfolding cs' by (rule t(1))
  show tk: "take 2 (channels s') = take 2 (channels s)" unfolding cs' by (rule t(2))
  have len: "length (channels s') = length (channels s)" unfolding cs' by (rule t(3))
  with ne show "channels s' \<noteq> []" by auto
  show "walker_ok s'" using d' len foc by (simp add: walker_ok_def)
  show "sorted_by_activity s'"
    using d' sorted_sort_reverse [of ?k refs] by (simp add: sorted_by_activity_def)
  have "filter (\<lambda>w. row_activity s' w = Some t) (map RBox (sort_reverse ?k refs))
            = filter (\<lambda>w. row_activity s' w = Some t) (map RBox refs)" for t
    using stable_sort_reverse [of ?k t refs]
    by (simp add: filter_map o_def row_activity_def)
  then show "order_kept s s'" by (simp add: order_kept_def d' d2)
qed

lemma unchanged_rows:
  assumes ok: "walker_ok s" and ne: "channels s \<noteq> []" and so: "sorted_by_activity s"
    and act: "\<And>x. most_recent_activity (boxes s' x) = most_recent_activity (boxes s x)"
    and cs': "channels s' = channels s" and foc: "focus s' = focus s"
  shows "walker_ok s'" and "channels s' \<noteq> []" and "sorted_by_activity s'"
    and "order_kept s s'" and "take 2 (channels s') = take 2 (channels s)"
proof -
  show "walker_ok s'" using ok cs' foc by (simp add: walker_ok_def)
  show "channels s' \<noteq> []" using ne cs' by simp
  have "sorted_by_activity s' = sorted_by_activity s"
    by (simp add: sorted_by_activity_def cs' act split: option.splits)
  with so show "sorted_by_activity s'" by simp
  show "order_kept s s'" by (simp add: order_kept_def cs')
  show "take 2 (channels s') = take 2 (channels s)" by (simp add: cs')
qed

lemma posts_callback_step:
  assumes ok: "walker_ok s" and ne: "channels s \<noteq> []" and so: "sorted_by_activity s"
  obtains s' where "pubsub_posts_callback r atoms s = Inr s'"
    and "walker_ok s'" and "channels s' \<noteq> []" and "sorted_by_activity s'"
    and "order_kept s s'" and "take 2 (channels s') = take 2 (channels s)"
    and "\<And>x. channel (boxes s' x) = channel (boxes s x)"
proof -
  obtain t ch where mr: "most_recent atoms (most_recent_activity (boxes s r)) = (t, ch)"
    by (cases "most_recent atoms (most_recent_activity (boxes s r))")
  define s1 where "s1 = update_box r (\<lambda>b. b\<lparr>most_recent_activity := t\<rparr>) s"
  define fin where "fin = (\<lambda>s2. notify
               (if active (boxes s2 r)
                then s2\<lparr>threads_list := threads_list s2 @ [AddNewItems atoms]\<rparr>
                else if \<not> (most_recent_activity (boxes s r) = oldest_date)
                then (let s3 = update_box r
                                 (\<lambda>b. b\<lparr>unread_ids := fold (\<lambda>a u. finsert (atom_id a) u) atoms (unread_ids b)\<rparr>) s2;
                          nb_unread = fcard (unread_ids (boxes s3 r))
                      in if nb_unread > 0
                         then update_box r (\<lambda>b. b\<lparr>widget_notif := '' ['' @ str_nat nb_unread @ '']''\<rparr>) s3
                         else s3)
                else s2))"
  have fin: "channels (fin s2) = channels s2" "focus (fin s2) = focus s2"
      "channel (boxes (fin s2) x) = channel (boxes s2 x)"
      "most_recent_activity (boxes (fin s2) x) = most_recent_activity (boxes s2 x)" for s2 x
    by (simp_all add: fin_def notify_def Let_def update_box_def)
  have cb: "pubsub_posts_callback r atoms s =
      (case (if ch then sort_channels s1 else Inr s1) of Inl err \<Rightarrow> Inl err | Inr s2 \<Rightarrow> Inr (fin s2))"
    unfolding fin_def s1_def using mr by (simp add: pubsub_posts_callback_def Let_def)
  have s1: "channels s1 = channels s" "focus s1 = focus s"
      "channel (boxes s1 x) = channel (boxes s x)" for x
    by (simp_all add: s1_def update_box_def)
  have ok1: "walker_ok s1" using ok by (simp add: s1_def)
  have ne1: "channels s1 \<noteq> []" using ne by (simp add: s1(1))
  show ?thesis
  proof (cases ch)
    case True
    from ok1 ne1 obtain refs pos where
      d2: "drop 2 (channels s1) = map RBox refs" and
      pos: "pos < length (channels s1)" and
      eq: "sort_channels s1 =
         Inr (s1\<lparr>channels := take 2 (channels s1) @ map RBox (sort_reverse (\<lambda>cb. most_recent_activity (boxes s1 cb)) refs),
                focus := pos\<rparr>)"
      by (rule sort_channels_ok)
    define s2 where "s2 = s1\<lparr>channels := take 2 (channels s1) @ map RBox (sort_reverse (\<lambda>cb. most_recent_activity (boxes s1 cb)) refs),
                focus := pos\<rparr>"
    have res: "pubsub_posts_callback r atoms s = Inr (fin s2)"
      using cb True eq by (simp add: s2_def)
    have k: "(\<lambda>cb. most_recent_activity (boxes (fin s2) cb)) = (\<lambda>cb. most_recent_activity (boxes s1 cb))"
      by (rule ext) (simp add: fin s2_def)
    have c2: "channels (fin s2) = take 2 (channels s)
                @ map RBox (sort_reverse (\<lambda>cb. most_recent_activity (boxes (fin s2) cb)) refs)"
      unfolding k by (simp add: fin s2_def s1(1))
    have f2: "focus (fin s2) < length (channels s)" using pos by (simp add: fin s2_def s1(1))
    have d: "drop 2 (channels s) = map RBox refs" using d2 by (simp add: s1(1))
    note r = resorted_rows [OF ok ne d c2 f2]
    have "channel (boxes (fin s2) x) = channel (boxes s x)" for x
      by (simp add: fin s2_def s1(3))
    with res r that show ?thesis by blast
  next
    case False
    with mr have t: "t = most_recent_activity (boxes s r)"
      using most_recent_cases(2) by blast
    have res: "pubsub_posts_callback r atoms s = Inr (fin s1)"
      using cb False by simp
    have act: "most_recent_activity (boxes (fin s1) x) = most_recent_activity (boxes s x)" for x
      by (simp add: fin s1_def t)
    have c: "channels (fin s1) = channels s" "focus (fin s1) = focus s"
      by (simp_all add: fin s1)
    note r = unchanged_rows [OF ok ne so act c]
    have "channel (boxes (fin s1) x) = channel (boxes s x)" for x
      by (simp add: fin s1(3))
    with res r that show ?thesis by blast
  qed
qed

lemma retract_callback_step:
  assumes ok: "walker_ok s" and ne: "channels s \<noteq> []"
  obtains s' where "pubsub_retract_callback r item_ids s = Inr s'"
    and "walker_ok s'" and "channels s' \<noteq> []" and "sorted_by_activity s'"
    and "order_kept s s'" and "take 2 (channels s') = take 2 (channels s)"
    and "\<And>x. channel (boxes s' x) = channel (boxes s x)"
proof -
  define s2 where "s2 = (let s1 = update_box r
                 (\<lambda>b. b\<lparr>unread_ids := fold (\<lambda>i u. u |-| {|i|}) item_ids (unread_ids b)\<rparr>) s
      in if active (boxes s1 r)
                then s1\<lparr>threads_list := threads_list s1 @ [RemoveItems item_ids]\<rparr>
                else s1)"
  have s2: "channels s2 = channels s" "focus s2 = focus s"
     "channel (boxes s2 x) = channel (boxes s x)"
     "most_recent_activity (boxes s2 x) = most_recent_activity (boxes s x)" for x
    by (simp_all add: s2_def update_box_def Let_def)
  have cb: "pubsub_retract_callback r item_ids s = sort_channels s2"
    by (simp add: pubsub_retract_callback_def s2_def Let_def)
  have ok2: "walker_ok s2" using ok s2(1,2) by (simp add: walker_ok_def)
  have ne2: "channels s2 \<noteq> []" using ne by (simp add: s2(1))
  from ok2 ne2 obtain refs pos where
      d2: "drop 2 (channels s2) = map RBox refs" and
      pos: "pos < length (channels s2)" and
      eq: "sort_channels s2 =
         Inr (s2\<lparr>channels := take 2 (channels s2) @ map RBox (sort_reverse (\<lambda>cb. most_recent_activity (boxes s2 cb)) refs),
                focus := pos\<rparr>)"
      by (rule sort_channels_ok)
  define s3 where "s3 = s2\<lparr>channels := take 2 (channels s2) @ map RBox (sort_reverse (\<lambda>cb. most_recent_activity (boxes s2 cb)) refs),
                focus := pos\<rparr>"
  have res: "pubsub_retract_callback r item_ids s = Inr s3"
    using cb eq by (simp add: s3_def)
  have c3: "channels s3 = take 2 (channels s)
                @ map RBox (sort_reverse (\<lambda>cb. most_recent_activity (boxes s3 cb)) refs)"
    by (simp add: s3_def s2(1))
  have f3: "focus s3 < length (channels s)" using pos by (simp add: s3_def s2(1))
  have d: "drop 2 (channels s) = map RBox refs" using d2 by (simp add: s2(1))
  note r = resorted_rows [OF ok ne d c3 f3]
  have "channel (boxes s3 x) = channel (boxes s x)" for x
    by (simp add: s3_def s2(3))
  with res r that show ?thesis by blast
qed

lemma apply_event_step:
  assumes "walker_ok s" and "channels s \<noteq> []" and "sorted_by_activity s"
  obtains s' where "apply_event ev s = Inr s'"
    and "walker_ok s'" and "channels s' \<noteq> []" and "sorted_by_activity s'"
    and "order_kept s s'" and "take 2 (channels s') = take 2 (channels s)"
    and "\<And>x. channel (boxes s' x) = channel (boxes s x)"
proof (cases ev)
  case (PostEvent r atoms)
  show ?thesis
  proof (rule posts_callback_step [OF assms, where r = r and atoms = atoms])
    fix s'
    assume "pubsub_posts_callback r atoms s = Inr s'"
      and "walker_ok s'" and "channels s' \<noteq> []" and "sorted_by_activity s'"
      and "order_kept s s'" and "take 2 (channels s') = take 2 (channels s)"
      and "\<And>x. channel (boxes s' x) = channel (boxes s x)"
    with PostEvent show ?thesis by (intro that [of s']) simp_all
  qed
next
  case (RetractEvent r item_ids)
  show ?thesis
  proof (rule retract_callback_step [OF assms(1,2), where r = r and item_ids = item_ids])
    fix s'
    assume "pubsub_retract_callback r item_ids s = Inr s'"
      and "walker_ok s'" and "channels s' \<noteq> []" and "sorted_by_activity s'"
      and "order_kept s s'" and "take 2 (channels s') = take 2 (channels s)"
      and "\<And>x. channel (boxes s' x) = channel (boxes s x)"
    with RetractEvent show ?thesis by (intro that [of s']) simp_all
  qed
qed

lemma run_events_sorted:
  assumes "walker_ok s" and "channels s \<noteq> []" and "sorted_by_activity s"
  shows "\<exists>s'. run_events evs s = Inr s' \<and> walker_ok s' \<and> channels s' \<noteq> []
       \<and> sorted_by_activity s' \<and> take 2 (channels s') = take 2 (channels s)
       \<and> (\<forall>x. channel (boxes s' x) = channel (boxes s x))"
  using assms
proof (induction evs arbitrary: s)
  case Nil
  then show ?case by simp
next
  case (Cons ev evs)
  show ?case
  proof (rule apply_event_step [OF Cons.prems, where ev = ev])
    fix s1
    assume e: "apply_event ev s = Inr s1"
      and j: "walker_ok s1" "channels s1 \<noteq> []" "sorted_by_activity s1"
      and t: "take 2 (channels s1) = take 2 (channels s)"
      and c: "\<And>x. channel (boxes s1 x) = channel (boxes s x)"
    from Cons.IH [OF j] obtain s' where
      "run_events evs s1 = Inr s'" "walker_ok s'" "channels s' \<noteq> []" "sorted_by_activity s'"
      "take 2 (channels s') = take 2 (channels s1)" "\<forall>x. channel (boxes s' x) = channel (boxes s1 x)"
      by blast
    with e t c show ?thesis by simp
  qed
qed

lemma add_channels_length:
  assumes "add_channels me chans s = Inr s'"
  shows "length (channels s') = length (channels s) + length chans"
  using assms
proof (induction chans arbitrary: s)
  case Nil
  then show ?case by simp
next
  case (Cons chan chans)
  from Cons.prems obtain w s1 where nb: "new_box chan s = Inr (w, s1)"
    by (auto split: sum.splits)
  then have cs: "channels s1 = channels s" by (auto simp: new_box_def split: sum.splits)
  show ?case
  proof (cases "jid chan = me")
    case True
    let ?s2 = "modified (s1\<lparr>channels := list_insert 0 (RBox w) (channels s1)\<rparr>)"
    from Cons.prems nb True obtain s3 where
      s3: "make_active (RBox w) ?s2 = Inr s3" and rest: "add_channels me chans s3 = Inr s'"
      by (auto split: sum.splits)
    from make_active_frame(1) [OF s3] cs have "length (channels s3) = Suc (length (channels s))"
      by (simp add: list_insert_def)
    with Cons.IH [OF rest] show ?thesis by simp
  next
    case False
    with Cons.prems nb have rest:
      "add_channels me chans (modified (s1\<lparr>channels := channels s1 @ [RBox w]\<rparr>)) = Inr s'"
      by simp
    from Cons.IH [OF rest] cs show ?thesis by simp
  qed
qed

lemma load_channels_sorted:
  assumes load: "load_channels cl s0 = Inr s1"
  shows "walker_ok s1" and "channels s1 \<noteq> []" and "sorted_by_activity s1"
    and "has_subscriptions cl \<Longrightarrow> divider_second s1"
proof -
  let ?me = "boundjid_bare cl"
  let ?e = "modified (s0\<lparr>channels := []\<rparr>)"
  from load obtain user_chan chans s' where
    own: "get_own_channel cl = Inr user_chan" and
    subs: "get_subscriptions cl user_chan = Inr chans" and
    add: "add_channels ?me chans ?e = Inr s'" and
    s1: "s1 = modified (s'\<lparr>channels := list_insert 1 RDivider (channels s')\<rparr>)"
    by (auto simp: load_channels_def split: sum.splits)
  have "fresh_rows ?e" by (simp add: fresh_rows_def modified_def)
  from add_channels_inv [OF add this] have fresh: "fresh_rows s'" by simp
  have len: "length (channels s') = length chans"
    using add_channels_length [OF add] by simp
  have ch1: "channels s1 = list_insert 1 RDivider (channels s')" and bx1: "boxes s1 = boxes s'"
    using s1 by simp_all
  show ne: "channels s1 \<noteq> []" by (simp add: ch1 list_insert_def)
  have allbox: "\<forall>w \<in> set (channels s'). \<exists>x. w = RBox x \<and> most_recent_activity (boxes s' x) = oldest_date"
    using fresh_rowsD [OF fresh] by fastforce
  have sub: "set (drop 2 (channels s1)) \<subseteq> set (channels s')"
    unfolding ch1 by (cases "channels s'") (auto simp: list_insert_def)
  with allbox have "RDivider \<notin> set (drop 2 (channels s1))" by auto
  then have "box_refs (drop 2 (channels s1)) \<noteq> None" by (rule no_divider_box_refs)
  then obtain refs where refs: "box_refs (drop 2 (channels s1)) = Some refs" by auto
  then have rows: "drop 2 (channels s1) = map RBox refs" by (simp add: box_refs_Some)
  show "walker_ok s1" unfolding s1 by (rule walker_ok_modified) (use refs ch1 in simp)
  from rows sub allbox have "\<forall>x \<in> set refs. most_recent_activity (boxes s' x) = oldest_date"
    by fastforce
  then have "sorted_wrt (\<lambda>a b. most_recent_activity (boxes s' a) \<ge> most_recent_activity (boxes s' b)) refs"
    by (rule sorted_wrt_const)
  then show "sorted_by_activity s1" using refs bx1 by (simp add: sorted_by_activity_def)
  show "divider_second s1" if "has_subscriptions cl"
  proof -
    from that own subs have "chans \<noteq> []" by (simp add: has_subscriptions_def)
    with len obtain w ws where "channels s' = w # ws" by (cases "channels s'") auto
    then show ?thesis by (simp add: divider_second_def ch1 list_insert_def)
  qed
qed

lemma own_channel_has_subscriptions: "own_channel_subscribed cl \<Longrightarrow> has_subscriptions cl"
  by (auto simp: own_channel_subscribed_def has_subscriptions_def split: sum.splits)

section \<open>The claims\<close>

text \<open>
  Claim C1. The first line follows the priority ladder, for every width \<open>W\<close> and every
  channel box, with \<open>Uw\<close> and \<open>Nw\<close> the natural widths of the user and of the
  notification texts. Without unread posts the domain gets \<open>W - Uw\<close> columns when that is
  positive, and otherwise the user alone is rendered at the full width. With unread posts
  the three segments are joined when \<open>W - Uw - Nw\<close> is positive; otherwise the user is
  shrunk to \<open>min Uw (W - Nw)\<close> columns and joined with the notification when that is
  positive, and otherwise the notification alone is rendered at the full width. For
  \<open>Uw = 5\<close>, \<open>Nw = 5\<close> and \<open>W = 8\<close> the user gets 3 columns and the notification 5.
\<close>

theorem render_priority_ladder:
  fixes pack :: "string \<Rightarrow> int" and W :: int and b :: channel_box
  defines "Uw \<equiv> pack (widget_user b)" and "Nw \<equiv> pack (widget_notif b)"
  shows "(unread_ids b = {||} \<and> W - Uw > 0 \<longrightarrow>
            fst (render pack W b) = CanvasJoin [(SegUser, Uw), (SegDomain, W - Uw)])
       \<and> (unread_ids b = {||} \<and> \<not> W - Uw > 0 \<longrightarrow>
            fst (render pack W b) = Rendered SegUser W)
       \<and> (unread_ids b \<noteq> {||} \<and> W - Uw - Nw > 0 \<longrightarrow>
            fst (render pack W b) =
              CanvasJoin [(SegUser, Uw), (SegDomain, W - Uw - Nw), (SegNotif, Nw)])
       \<and> (unread_ids b \<noteq> {||} \<and> \<not> W - Uw - Nw > 0 \<and> min Uw (W - Nw) > 0 \<longrightarrow>
            fst (render pack W b) = CanvasJoin [(SegUser, min Uw (W - Nw)), (SegNotif, Nw)])
       \<and> (unread_ids b \<noteq> {||} \<and> \<not> W - Uw - Nw > 0 \<and> \<not> min Uw (W - Nw) > 0 \<longrightarrow>
            fst (render pack W b) = Rendered SegNotif W)
       \<and> (unread_ids b \<noteq> {||} \<and> Uw = 5 \<and> Nw = 5 \<and> W = 8 \<longrightarrow>
            fst (render pack W b) = CanvasJoin [(SegUser, 3), (SegNotif, 5)])"
  by (auto simp: render_def Let_def Uw_def Nw_def)

theorem render_priority_ladder_witness:
  "unread_ids alice_box \<noteq> {||} \<and> int (length (widget_user alice_box)) = 5
   \<and> int (length (widget_notif alice_box)) = 5
   \<and> fst (render (\<lambda>t. int (length t)) 8 alice_box) = CanvasJoin [(SegUser, 3), (SegNotif, 5)]"
proof -
  have h: "unread_ids alice_box \<noteq> {||}" by (simp add: alice_box_def upt_rec)
  from render_priority_ladder [of alice_box 8 "\<lambda>t. int (length t)"] h
  show ?thesis by (simp add: alice_box_def)
qed

text \<open>
  Claim C2, amended. After a load that returns and any sequence of post and retract
  events, the callbacks have returned and the rows from position 2 on are channel boxes
  sorted by \<^verbatim>\<open>most_recent_activity\<close> in descending order; position 1 holds the divider when
  the subscriptions are not empty; position 0 holds the channel of the user when the
  subscriptions contain it, and then the whole invariant holds. One more event returns
  and keeps the relative order of the rows that then have equal timestamps.
\<close>

theorem ordering_invariant:
  fixes cl :: client and s0 :: ui_state and evs :: "event list" and ev :: event
  defines "s1 \<equiv> state_after (load_channels cl s0)"
  defines "s \<equiv> state_after (run_events evs s1)"
  assumes "returns (load_channels cl s0)"
  shows "returns (run_events evs s1)
       \<and> sorted_by_activity s
       \<and> (has_subscriptions cl \<longrightarrow> divider_second s)
       \<and> (own_channel_subscribed cl \<longrightarrow> self_first (boundjid_bare cl) s)
       \<and> (own_channel_subscribed cl \<longrightarrow> ordered (boundjid_bare cl) s)
       \<and> returns (apply_event ev s) \<and> order_kept s (state_after (apply_event ev s))"
proof -
  from assms(3) have load: "load_channels cl s0 = Inr s1"
    by (auto simp: returns_def s1_def state_after_def split: sum.splits)
  note l = load_channels_sorted [OF load]
  from run_events_sorted [OF l(1,2,3), of evs] obtain s' where
    run: "run_events evs s1 = Inr s'" and j: "walker_ok s'" "channels s' \<noteq> []" "sorted_by_activity s'"
    and t: "take 2 (channels s') = take 2 (channels s1)"
    and c: "\<And>x. channel (boxes s' x) = channel (boxes s1 x)"
    by blast
  from run have s: "s = s'" by (simp add: s_def state_after_def)
  have d: "divider_second s'" if "has_subscriptions cl"
    using l(4) [OF that] divider_second_take [OF t] by simp
  have f: "self_first (boundjid_bare cl) s'" if "own_channel_subscribed cl"
    using load_channels_ordered [OF load that] self_first_take [OF t c]
    by (simp add: ordered_def)
  have o: "ordered (boundjid_bare cl) s'" if "own_channel_subscribed cl"
    using f [OF that] d [OF own_channel_has_subscriptions [OF that]] j(3)
    by (simp add: ordered_def)
  have e: "returns (apply_event ev s') \<and> order_kept s' (state_after (apply_event ev s'))"
  proof (rule apply_event_step [OF j, where ev = ev])
    fix s''
    assume "apply_event ev s' = Inr s''" and "order_kept s' s''"
    then show ?thesis by (simp add: returns_def state_after_def)
  qed
  from run j(3) d f o e show ?thesis
    unfolding s by (simp add: returns_def)
qed

text \<open>The claim as it was stated fails: after a load of three subscriptions without the
  channel of the user, and two events, position 0 holds the channel of Bob.\<close>

theorem ordering_invariant_counterexample:
  "returns (load_channels stranger_client init_ui)
   \<and> returns (run_events stranger_events (state_after (load_channels stranger_client init_ui)))
   \<and> channels (state_after (run_events stranger_events
         (state_after (load_channels stranger_client init_ui)))) = [RBox 0, RDivider, RBox 2, RBox 1]
   \<and> jid (channel (boxes (state_after (run_events stranger_events
         (state_after (load_channels stranger_client init_ui)))) 0)) = ''bob@example.org''
   \<and> boundjid_bare stranger_client = ''alice@example.org''
   \<and> \<not> ordered (boundjid_bare stranger_client)
          (state_after (run_events stranger_events
             (state_after (load_channels stranger_client init_ui))))"
proof -
  define sL where "sL = state_after (load_channels stranger_client init_ui)"
  define sA where "sA = state_after (pubsub_posts_callback 1 probe_atoms sL)"
  define sB where "sB = state_after (pubsub_posts_callback 2 new_atoms sA)"
  have sL: "sL = \<lparr> boxes = (\<lambda>_. blank_box)
         (0 := blank_box\<lparr>channel := \<lparr>jid = ''bob@example.org''\<rparr>, widget_user := ''bob'', widget_domain := ''@eo''\<rparr>,
          1 := blank_box\<lparr>channel := \<lparr>jid = ''carol@example.long.xyz''\<rparr>, widget_user := ''carol'', widget_domain := ''@elx''\<rparr>,
          2 := blank_box\<lparr>channel := \<lparr>jid = ''dave@example.org''\<rparr>, widget_user := ''dave'', widget_domain := ''@eo''\<rparr>),
       next_ref = 3, channels = [RBox 0, RDivider, RBox 1, RBox 2], focus = 0,
       active_channel = None, status = [], infobar_left = [], infobar_right = [],
       threads_list = [], notified = 0 \<rparr>"
    by (simp add: sL_def stranger_loaded)
  have L: "returns (load_channels stranger_client init_ui)"
    by (simp add: stranger_loaded returns_def)
  have "returns (pubsub_posts_callback 1 probe_atoms sL)"
    by (simp add: sL event_eval)
  then have A: "pubsub_posts_callback 1 probe_atoms sL = Inr sA"
    unfolding sA_def by (rule returns_Inr)
  have "returns (pubsub_posts_callback 2 new_atoms sA)"
    by (simp add: sA_def sL event_eval)
  then have B: "pubsub_posts_callback 2 new_atoms sA = Inr sB"
    unfolding sB_def by (rule returns_Inr)
  have run: "run_events stranger_events sL = Inr sB"
    using A B by (simp add: stranger_events_def)
  have cB: "channels sB = [RBox 0, RDivider, RBox 2, RBox 1]"
    by (simp add: sB_def sA_def sL event_eval)
  have jB: "jid (channel (boxes sB 0)) = ''bob@example.org''"
    by (simp add: sB_def sA_def sL event_eval)
  have me: "boundjid_bare stranger_client = ''alice@example.org''"
    by (simp add: stranger_client_def)
  have "\<not> self_first ''alice@example.org'' sB"
    by (simp add: self_first_def cB jB)
  then have no: "\<not> ordered ''alice@example.org'' sB" by (simp add: ordered_def)
  show ?thesis
    unfolding sL_def [symmetric] run me using L cB jB no by (simp add: returns_def)
qed

theorem ordering_invariant_witness:
  "returns (load_channels example_client init_ui) \<and> has_subscriptions example_client
   \<and> own_channel_subscribed example_client
   \<and> sorted_by_activity posted_ui \<and> divider_second posted_ui
   \<and> self_first ''alice@example.org'' posted_ui
   \<and> ordered ''alice@example.org'' posted_ui \<and> order_kept posted_ui retracted_ui
   \<and> channels loaded_ui = [RBox 1, RDivider, RBox 0, RBox 2]
   \<and> channels posted_ui = [RBox 1, RDivider, RBox 2, RBox 0]"
proof -
  have h1: "returns (load_channels example_client init_ui)" by (rule loaded_returns)
  have h2: "own_channel_subscribed example_client"
    by (simp add: own_channel_subscribed_def example_client_def)
  have h3: "has_subscriptions example_client"
    by (simp add: has_subscriptions_def example_client_def)
  have run: "run_events [PostEvent 2 probe_atoms, PostEvent 2 new_atoms] loaded_ui = Inr posted_ui"
    by (simp add: probed_returns posted_returns)
  have me: "boundjid_bare example_client = ''alice@example.org''"
    by (simp add: example_client_def)
  from ordering_invariant [OF h1, of "[PostEvent 2 probe_atoms, PostEvent 2 new_atoms]"
      "RetractEvent 2 [''p1'']"]
  have "sorted_by_activity posted_ui \<and> divider_second posted_ui
      \<and> self_first ''alice@example.org'' posted_ui
      \<and> ordered ''alice@example.org'' posted_ui \<and> order_kept posted_ui retracted_ui"
    unfolding loaded_ui_def [symmetric] run me using h2 h3
    by (simp add: retracted_ui_def [symmetric])
  with h1 h2 h3 show ?thesis by (simp add: posted_ui_facts loaded_ui_eq)
qed




text \<open>
  Claim C4. \<open>load_channels\<close> does not catch a \<^verbatim>\<open>ChannelError\<close>: when the fetch of the
  own channel raises it, and when the fetch of the subscriptions raises it,
  \<open>load_channels\<close> raises it in turn, with the state as it was.
\<close>

theorem load_channels_propagates:
  "load_channels (cl\<lparr>get_own_channel := Inl ChannelError\<rparr>) s = Inl (ChannelError, s)
   \<and> load_channels (cl\<lparr>get_own_channel := Inr own, get_subscriptions := (\<lambda>_. Inl ChannelError)\<rparr>) s
       = Inl (ChannelError, s)"
  by (simp add: load_channels_def)

text \<open>
  Claim C5, amended. On a non-empty list, whatever row has the focus (a channel box or the
  divider), \<open>sort_channels\<close> returns, and the rows after it are the rows before it as a
  multiset.
\<close>

theorem resort_keeps_entries:
  assumes "walker_ok s" and "channels s \<noteq> []"
  shows "returns (sort_channels s)
       \<and> mset (channels (state_after (sort_channels s))) = mset (channels s)"
proof -
  from assms obtain refs pos where
    d2: "drop 2 (channels s) = map RBox refs" and
    eq: "sort_channels s =
       Inr (s\<lparr>channels := take 2 (channels s) @ map RBox (sort_reverse (\<lambda>cb. most_recent_activity (boxes s cb)) refs),
              focus := pos\<rparr>)"
    by (rule sort_channels_ok)
  have "mset (channels (s\<lparr>channels := take 2 (channels s) @ map RBox (sort_reverse (\<lambda>cb. most_recent_activity (boxes s cb)) refs),
              focus := pos\<rparr>)) = mset (channels s)"
    using mset_take_drop_sorted [OF d2] by (simp del: mset_append)
  then show ?thesis
    unfolding eq by (simp add: returns_def state_after_def del: mset_append)
qed

text \<open>The claim as it was stated fails: on the empty list \<open>sort_channels\<close> raises.\<close>

theorem resort_empty_list_counterexample: "\<not> returns (sort_channels init_ui)"
  by (simp add: sort_channels_def get_focus_def init_ui_def returns_def modified_def Let_def)

theorem resort_keeps_entries_witness:
  "walker_ok (set_focus 1 loaded_ui) \<and> channels (set_focus 1 loaded_ui) \<noteq> []
   \<and> get_focus (set_focus 1 loaded_ui) = Inr (Some RDivider)
   \<and> returns (sort_channels (set_focus 1 loaded_ui))
   \<and> mset (channels (state_after (sort_channels (set_focus 1 loaded_ui))))
       = mset (channels (set_focus 1 loaded_ui))"
proof -
  have h1: "walker_ok (set_focus 1 loaded_ui)"
    by (simp add: walker_ok_def set_focus_def modified_def loaded_ui_eq)
  have h2: "channels (set_focus 1 loaded_ui) \<noteq> []"
    by (simp add: set_focus_def modified_def loaded_ui_eq)
  have h3: "get_focus (set_focus 1 loaded_ui) = Inr (Some RDivider)"
    by (simp add: get_focus_def set_focus_def modified_def loaded_ui_eq)
  from resort_keeps_entries [OF h1 h2] h1 h2 h3 show ?thesis by blast
qed

text \<open>
  Claim C6. When the forced fetch of \<open>reset\<close> raises \<^verbatim>\<open>ChannelError\<close>, \<open>reset\<close> returns
  and the whole state is as before: the list, its order, the boxes and their active flags,
  and also the text of \<^verbatim>\<open>ui.status\<close>, so that no warning is shown. When the fetch
  answers a channel, a new box takes the position of the old one and is the active one.
\<close>

theorem reset_outcomes:
  fixes cl :: client and s :: ui_state and r :: ref
  defines "fetched \<equiv> get_channel cl (jid (channel (boxes s r))) True"
  assumes "active_channel s = Some r" and "index_of (channels s) (RBox r) = Some idx"
    and "r < next_ref s"
  shows "(fetched = Inl ChannelError \<longrightarrow> reset cl s = Inr s)
       \<and> (fetched = Inr new_chan \<and> ChannelBox_init new_chan = Inr b \<longrightarrow>
            returns (reset cl s)
            \<and> channels (state_after (reset cl s)) = (channels s)[idx := RBox (next_ref s)]
            \<and> active_channel (state_after (reset cl s)) = Some (next_ref s)
            \<and> active (boxes (state_after (reset cl s)) (next_ref s))
            \<and> channel (boxes (state_after (reset cl s)) (next_ref s)) = new_chan
            \<and> \<not> active (boxes (state_after (reset cl s)) r))"
proof (intro conjI impI)
  assume "fetched = Inl ChannelError"
  then have "get_channel cl (jid (channel (boxes s r))) True = Inl ChannelError"
    by (simp add: fetched_def)
  with assms(2,3) show "reset cl s = Inr s" by (simp add: reset_def)
next
  assume a0: "fetched = Inr new_chan \<and> ChannelBox_init new_chan = Inr b"
  then have a: "get_channel cl (jid (channel (boxes s r))) True = Inr new_chan"
      "ChannelBox_init new_chan = Inr b"
    by (simp_all add: fetched_def)
  let ?n = "next_ref s"
  let ?s1 = "s\<lparr>boxes := (boxes s)(?n := b), next_ref := ?n + 1\<rparr>"
  let ?s2 = "modified (?s1\<lparr>channels := (channels s)[idx := RBox ?n]\<rparr>)"
  have nb: "new_box new_chan s = Inr (?n, ?s1)" using a by (simp add: new_box_def)
  have res: "reset cl s = make_active (RBox ?n) ?s2"
    using a nb assms(2,3) by (simp add: reset_def)
  have ac2: "active_channel ?s2 = Some r" and cs2: "channels ?s2 = (channels s)[idx := RBox ?n]"
    and bx2: "boxes ?s2 = (boxes s)(?n := b)"
    using assms(2) by (simp_all add: modified_def)
  from assms(4) ac2 have "active_channel ?s2 \<noteq> Some ?n" by simp
  then obtain s' where s': "make_active (RBox ?n) ?s2 = Inr s'"
    and cs: "channels s' = channels ?s2" and ac: "active_channel s' = Some ?n"
    and act: "\<And>x. active (boxes s' x) \<longleftrightarrow> x = ?n \<or> (active (boxes ?s2 x) \<and> active_channel ?s2 \<noteq> Some x)"
    and ch: "\<And>x. channel (boxes s' x) = channel (boxes ?s2 x)"
    by (rule make_active_new) blast
  have st: "state_after (reset cl s) = s'" and rt: "returns (reset cl s)"
    using res s' by (simp_all add: state_after_def returns_def)
  show "returns (reset cl s)" by (rule rt)
  show "channels (state_after (reset cl s)) = (channels s)[idx := RBox ?n]"
    using st cs cs2 by simp
  show "active_channel (state_after (reset cl s)) = Some ?n" using st ac by simp
  show "active (boxes (state_after (reset cl s)) ?n)" using st act by simp
  show "channel (boxes (state_after (reset cl s)) ?n) = new_chan"
    using st ch bx2 ChannelBox_init_fields(1) [OF a(2)] by simp
  show "\<not> active (boxes (state_after (reset cl s)) r)"
    using st act [of r] ac2 assms(4) by simp
qed

theorem reset_outcomes_witness:
  "active_channel loaded_ui = Some 1 \<and> index_of (channels loaded_ui) (RBox 1) = Some 0
   \<and> 1 < next_ref loaded_ui
   \<and> get_channel example_client (jid (channel (boxes loaded_ui 1))) True = Inl ChannelError
   \<and> reset example_client loaded_ui = Inr loaded_ui
   \<and> get_channel refetch_client (jid (channel (boxes loaded_ui 1))) True = Inr \<lparr>jid = ''alice@example.org''\<rparr>
   \<and> channels (state_after (reset refetch_client loaded_ui)) = [RBox 3, RDivider, RBox 0, RBox 2]
   \<and> active_channel (state_after (reset refetch_client loaded_ui)) = Some 3"
proof -
  have h1: "active_channel loaded_ui = Some 1" by (simp add: loaded_ui_eq)
  have h2: "index_of (channels loaded_ui) (RBox 1) = Some 0" by (simp add: loaded_ui_eq)
  have h3: "1 < next_ref loaded_ui" by (simp add: loaded_ui_eq)
  have f1: "get_channel example_client (jid (channel (boxes loaded_ui 1))) True = Inl ChannelError"
    by (simp add: example_client_def)
  have f2: "get_channel refetch_client (jid (channel (boxes loaded_ui 1))) True = Inr \<lparr>jid = ''alice@example.org''\<rparr>"
    by (simp add: refetch_client_def example_client_def loaded_ui_eq)
  have b: "ChannelBox_init \<lparr>jid = ''alice@example.org''\<rparr> =
      Inr (blank_box\<lparr>channel := \<lparr>jid = ''alice@example.org''\<rparr>, widget_user := ''alice'', widget_domain := ''@eo''\<rparr>)"
    by (simp add: ChannelBox_init_def split_once_def blank_box_def)
  from reset_outcomes [OF h1 h2 h3, of example_client] f1
  have r1: "reset example_client loaded_ui = Inr loaded_ui" by simp
  from reset_outcomes [OF h1 h2 h3, of refetch_client] f2 b
  have r2: "channels (state_after (reset refetch_client loaded_ui)) = (channels loaded_ui)[0 := RBox (next_ref loaded_ui)]
     \<and> active_channel (state_after (reset refetch_client loaded_ui)) = Some (next_ref loaded_ui)"
    by simp
  from h1 h2 h3 f1 f2 r1 r2 show ?thesis by (simp add: loaded_ui_eq)
qed

text \<open>
  Claim C7. From a state in which every active box of the list is \<^verbatim>\<open>active_channel\<close>,
  any sequence of \<open>make_active\<close> calls on channel boxes returns and leaves a state of
  this kind, in which at most one box of the list is active. Activating a box that is not
  the active one makes it the active one, empties its \<^verbatim>\<open>unread_ids\<close> and the text of
  its notification widget. Activating the active box changes nothing.
\<close>

theorem activation_exclusive:
  assumes "exclusive s"
  shows "returns (make_active_all rs s)
       \<and> exclusive (state_after (make_active_all rs s))
       \<and> length (active_rows (state_after (make_active_all rs s))) \<le> 1
       \<and> (active_channel s \<noteq> Some r \<longrightarrow>
            returns (make_active (RBox r) s)
            \<and> active_channel (state_after (make_active (RBox r) s)) = Some r
            \<and> active (boxes (state_after (make_active (RBox r) s)) r)
            \<and> unread_ids (boxes (state_after (make_active (RBox r) s)) r) = {||}
            \<and> widget_notif (boxes (state_after (make_active (RBox r) s)) r) = [])
       \<and> (active_channel s = Some r \<longrightarrow> make_active (RBox r) s = Inr s)"
proof -
  from make_active_all_exclusive [OF assms, of rs] obtain s' where
    s': "make_active_all rs s = Inr s'" and ex: "exclusive s'" by blast
  have seq: "returns (make_active_all rs s)
       \<and> exclusive (state_after (make_active_all rs s))
       \<and> length (active_rows (state_after (make_active_all rs s))) \<le> 1"
    using s' ex exclusive_at_most_one [OF ex] by (simp add: returns_def state_after_def)
  have new: "returns (make_active (RBox r) s)
            \<and> active_channel (state_after (make_active (RBox r) s)) = Some r
            \<and> active (boxes (state_after (make_active (RBox r) s)) r)
            \<and> unread_ids (boxes (state_after (make_active (RBox r) s)) r) = {||}
            \<and> widget_notif (boxes (state_after (make_active (RBox r) s)) r) = []"
    if "active_channel s \<noteq> Some r"
  proof -
    from that obtain s2 where "make_active (RBox r) s = Inr s2" "active_channel s2 = Some r"
      "\<And>x. active (boxes s2 x) \<longleftrightarrow> x = r \<or> (active (boxes s x) \<and> active_channel s \<noteq> Some x)"
      "unread_ids (boxes s2 r) = {||}" "widget_notif (boxes s2 r) = []"
      by (rule make_active_new) blast
    then show ?thesis by (simp add: returns_def state_after_def)
  qed
  have same: "make_active (RBox r) s = Inr s" if "active_channel s = Some r"
    using that by (simp add: make_active_def)
  show ?thesis
  proof (intro conjI impI)
    show "returns (make_active_all rs s)" using seq by simp
    show "exclusive (state_after (make_active_all rs s))" using seq by simp
    show "length (active_rows (state_after (make_active_all rs s))) \<le> 1" using seq by simp
    show "make_active (RBox r) s = Inr s" if "active_channel s = Some r"
      using that by (rule same)
  qed (use new in simp_all)
qed

theorem activation_exclusive_witness:
  "exclusive loaded_ui \<and> active_channel loaded_ui \<noteq> Some 2
   \<and> returns (make_active_all [0, 2, 0] loaded_ui)
   \<and> length (active_rows (state_after (make_active_all [0, 2, 0] loaded_ui))) \<le> 1
   \<and> active_channel (state_after (make_active (RBox 2) loaded_ui)) = Some 2
   \<and> active_channel loaded_ui = Some 1
   \<and> make_active (RBox 1) loaded_ui = Inr loaded_ui"
proof -
  have h: "exclusive loaded_ui" by (simp add: exclusive_def loaded_ui_eq blank_box_def)
  have a: "active_channel loaded_ui \<noteq> Some 2" "active_channel loaded_ui = Some 1"
    by (simp_all add: loaded_ui_eq)
  from activation_exclusive [OF h, of "[0, 2, 0]" 2] activation_exclusive [OF h, of "[]" 1] h a
  show ?thesis by simp
qed

text \<open>
  Claim C8. When the focus is on a channel box, \<open>sort_channels\<close> returns and the focus is
  on the same box afterwards.
\<close>

theorem resort_keeps_focus:
  assumes "walker_ok s" and "get_focus s = Inr (Some (RBox r))"
  shows "returns (sort_channels s)
       \<and> get_focus (state_after (sort_channels s)) = Inr (Some (RBox r))"
proof -
  from assms(2) have ne: "channels s \<noteq> []" and foc: "focus s < length (channels s)"
    and row: "channels s ! focus s = RBox r"
    by (auto simp: get_focus_def split: if_splits)
  from assms(1) ne obtain refs pos where
    d2: "drop 2 (channels s) = map RBox refs" and
    pos: "pos < length (channels s)" and
    at: "(take 2 (channels s) @ map RBox (sort_reverse (\<lambda>cb. most_recent_activity (boxes s cb)) refs)) ! pos
       = channels s ! focus s" and
    eq: "sort_channels s =
       Inr (s\<lparr>channels := take 2 (channels s) @ map RBox (sort_reverse (\<lambda>cb. most_recent_activity (boxes s cb)) refs),
              focus := pos\<rparr>)"
    by (rule sort_channels_ok)
  have "length (take 2 (channels s) @ map RBox (sort_reverse (\<lambda>cb. most_recent_activity (boxes s cb)) refs))
        = length (take 2 (channels s) @ drop 2 (channels s))"
    unfolding d2 by simp
  then have len: "length (take 2 (channels s) @ map RBox (sort_reverse (\<lambda>cb. most_recent_activity (boxes s cb)) refs))
        = length (channels s)" by simp
  show ?thesis
    unfolding eq using pos at row len ne
    by (simp add: returns_def state_after_def get_focus_def)
qed

theorem resort_keeps_focus_witness:
  "walker_ok focused_ui \<and> get_focus focused_ui = Inr (Some (RBox 2)) \<and> focus focused_ui = 3
   \<and> returns (sort_channels focused_ui)
   \<and> get_focus (state_after (sort_channels focused_ui)) = Inr (Some (RBox 2))
   \<and> focus (state_after (sort_channels focused_ui)) = 2"
proof -
  have h1: "walker_ok focused_ui"
    by (simp add: walker_ok_def focused_ui_def set_focus_def modified_def update_box_def loaded_ui_eq)
  have h2: "get_focus focused_ui = Inr (Some (RBox 2))"
    by (simp add: get_focus_def focused_ui_def set_focus_def modified_def update_box_def loaded_ui_eq)
  have h3: "focus focused_ui = 3"
    by (simp add: focused_ui_def set_focus_def modified_def update_box_def loaded_ui_eq)
  have h4: "focus (state_after (sort_channels focused_ui)) = 2"
    by (simp add: focused_ui_def loaded_ui_eq event_eval)
  from resort_keeps_focus [OF h1 h2] h1 h2 h3 h4 show ?thesis by blast
qed

text \<open>
  Claim C9, amended. A configuration event sets the title and the description to the
  stripped values of the keys that are present, the creation date to the formatted value
  and the type to the value as it is, not stripped; a field whose key is absent keeps its
  value. An event with a title only leaves the description, the creation date and the
  type as they were.
\<close>

theorem set_config_partial_merge:
  fixes strftime :: "'d \<Rightarrow> string" and conf :: "'d config" and s :: ui_state and r :: ref
  defines "b \<equiv> boxes s r"
  defines "b' \<equiv> boxes (pubsub_config_clalback strftime r conf s) r"
  shows "chan_title b' = (case cfg_title conf of Some t \<Rightarrow> strip t | None \<Rightarrow> chan_title b)
       \<and> chan_description b' = (case cfg_description conf of Some d \<Rightarrow> strip d | None \<Rightarrow> chan_description b)
       \<and> chan_creation b' = (case cfg_creation conf of Some c \<Rightarrow> strftime c | None \<Rightarrow> chan_creation b)
       \<and> chan_type b' = (case cfg_type conf of Some t \<Rightarrow> t | None \<Rightarrow> chan_type b)
       \<and> (cfg_description conf = None \<and> cfg_creation conf = None \<and> cfg_type conf = None \<longrightarrow>
            chan_description b' = chan_description b \<and> chan_creation b' = chan_creation b
            \<and> chan_type b' = chan_type b)"
  by (simp add: b_def b'_def pubsub_config_clalback_def set_config_def notify_def
        display_config_def update_box_def Let_def split: option.splits)

text \<open>The claim as it was stated fails: the type is a text field, and it is stored with
  the whitespace around it.\<close>

theorem set_config_partial_merge_counterexample:
  "cfg_type type_config = Some '' topic ''
   \<and> chan_type (boxes (pubsub_config_clalback fixed_strftime 0 type_config loaded_ui) 0) = '' topic ''
   \<and> strip '' topic '' = ''topic''"
  by (simp add: type_config_def pubsub_config_clalback_def set_config_def notify_def
        display_config_def update_box_def Let_def strip_def is_space_def)

theorem set_config_partial_merge_witness:
  "cfg_description \<lparr>cfg_title = Some '' X '', cfg_description = None, cfg_creation = None, cfg_type = None\<rparr> = None
   \<and> chan_title (boxes (pubsub_config_clalback (\<lambda>d :: nat. ''date'') 0
        \<lparr>cfg_title = Some '' X '', cfg_description = None, cfg_creation = None, cfg_type = None\<rparr> loaded_ui) 0) = ''X''
   \<and> chan_description (boxes (pubsub_config_clalback (\<lambda>d :: nat. ''date'') 0
        \<lparr>cfg_title = Some '' X '', cfg_description = None, cfg_creation = None, cfg_type = None\<rparr> loaded_ui) 0)
       = chan_description (boxes loaded_ui 0)
   \<and> chan_creation (boxes (pubsub_config_clalback (\<lambda>d :: nat. ''date'') 0
        \<lparr>cfg_title = Some '' X '', cfg_description = None, cfg_creation = None, cfg_type = None\<rparr> loaded_ui) 0)
       = chan_creation (boxes loaded_ui 0)
   \<and> chan_type (boxes (pubsub_config_clalback (\<lambda>d :: nat. ''date'') 0
        \<lparr>cfg_title = Some '' X '', cfg_description = None, cfg_creation = None, cfg_type = None\<rparr> loaded_ui) 0)
       = chan_type (boxes loaded_ui 0)"
  using set_config_partial_merge [of "\<lambda>d :: nat. ''date''" 0
      "\<lparr>cfg_title = Some '' X '', cfg_description = None, cfg_creation = None, cfg_type = None\<rparr>" loaded_ui]
  by (simp add: strip_def is_space_def)

text \<open>
  Claim C10. A retract event leaves the text of the notification widget as it was and
  removes the retracted ids from \<^verbatim>\<open>unread_ids\<close>, whether the sort that follows returns or
  raises. The first line contains the notification segment iff \<^verbatim>\<open>unread_ids\<close> is not
  empty. So the text can show more than the set holds: in the session above it is \<open>[3]\<close> with
  two unread ids. The next post event on the inactive box writes the count again, and an
  activation empties the text.
\<close>

theorem retract_keeps_badge:
  "widget_notif (boxes (state_after (pubsub_retract_callback r item_ids s)) r) = widget_notif (boxes s r)
   \<and> unread_ids (boxes (state_after (pubsub_retract_callback r item_ids s)) r)
       = unread_ids (boxes s r) |-| fset_of_list item_ids
   \<and> (SegNotif \<in> set (segments (fst (render pack W (boxes s r)))) \<longleftrightarrow> unread_ids (boxes s r) \<noteq> {||})
   \<and> (widget_notif (boxes retracted_ui 2) = '' [3]''
        \<and> fcard (unread_ids (boxes retracted_ui 2)) = 2)
   \<and> (walker_ok s \<and> channels s \<noteq> [] \<and> \<not> active (boxes s r)
        \<and> most_recent_activity (boxes s r) \<noteq> oldest_date \<and> unread_ids (boxes s r) \<noteq> {||} \<longrightarrow>
        widget_notif (boxes (state_after (pubsub_posts_callback r atoms s)) r) =
          '' ['' @ str_nat (fcard (unread_ids (boxes (state_after (pubsub_posts_callback r atoms s)) r))) @ '']'')
   \<and> (active_channel s \<noteq> Some r \<longrightarrow>
        widget_notif (boxes (state_after (make_active (RBox r) s)) r) = [])"
proof (intro conjI impI)
  show "widget_notif (boxes (state_after (pubsub_retract_callback r item_ids s)) r) = widget_notif (boxes s r)"
    by (simp add: retract_boxes)
  show "unread_ids (boxes (state_after (pubsub_retract_callback r item_ids s)) r)
       = unread_ids (boxes s r) |-| fset_of_list item_ids"
    by (simp add: retract_boxes)
  show "SegNotif \<in> set (segments (fst (render pack W (boxes s r)))) \<longleftrightarrow> unread_ids (boxes s r) \<noteq> {||}"
    by (rule render_notif_iff)
  show "widget_notif (boxes retracted_ui 2) = '' [3]''"
    by (rule retracted_ui_facts(2))
  show "fcard (unread_ids (boxes retracted_ui 2)) = 2"
    by (rule retracted_ui_facts(3))
next
  assume a: "walker_ok s \<and> channels s \<noteq> [] \<and> \<not> active (boxes s r)
        \<and> most_recent_activity (boxes s r) \<noteq> oldest_date \<and> unread_ids (boxes s r) \<noteq> {||}"
  then have "walker_ok s"
    and "channels s \<noteq> [] \<or> (\<forall>a \<in> set atoms. published a \<le> most_recent_activity (boxes s r))"
    by simp_all
  then obtain s' where "pubsub_posts_callback r atoms s = Inr s'"
    and "unread_ids (boxes s' r) =
           (if \<not> active (boxes s r) \<and> most_recent_activity (boxes s r) \<noteq> oldest_date
            then unread_ids (boxes s r) |\<union>| fset_of_list (map atom_id atoms)
            else unread_ids (boxes s r))"
    and "widget_notif (boxes s' r) =
           (if \<not> active (boxes s r) \<and> most_recent_activity (boxes s r) \<noteq> oldest_date
               \<and> unread_ids (boxes s r) |\<union>| fset_of_list (map atom_id atoms) \<noteq> {||}
            then '' ['' @ str_nat (fcard (unread_ids (boxes s r) |\<union>| fset_of_list (map atom_id atoms))) @ '']''
            else widget_notif (boxes s r))"
    by (rule posts_callback_box)
  with a show "widget_notif (boxes (state_after (pubsub_posts_callback r atoms s)) r) =
          '' ['' @ str_nat (fcard (unread_ids (boxes (state_after (pubsub_posts_callback r atoms s)) r))) @ '']''"
    by (simp add: state_after_def)
next
  assume "active_channel s \<noteq> Some r"
  then obtain s' where "make_active (RBox r) s = Inr s'" "widget_notif (boxes s' r) = []"
    by (rule make_active_new) blast
  then show "widget_notif (boxes (state_after (make_active (RBox r) s)) r) = []"
    by (simp add: state_after_def)
qed

theorem retract_keeps_badge_witness:
  "walker_ok posted_ui \<and> channels posted_ui \<noteq> [] \<and> \<not> active (boxes posted_ui 2)
   \<and> most_recent_activity (boxes posted_ui 2) \<noteq> oldest_date
   \<and> unread_ids (boxes posted_ui 2) \<noteq> {||} \<and> active_channel posted_ui \<noteq> Some 2
   \<and> widget_notif (boxes retracted_ui 2) = widget_notif (boxes posted_ui 2)
   \<and> widget_notif (boxes posted_ui 2) = '' [3]''
   \<and> fcard (unread_ids (boxes retracted_ui 2)) = 2
   \<and> widget_notif (boxes (state_after (make_active (RBox 2) posted_ui)) 2) = []"
proof -
  have h1: "walker_ok posted_ui" by (simp add: walker_ok_def posted_ui_facts)
  have h2: "channels posted_ui \<noteq> []" by (simp add: posted_ui_facts)
  have h3: "\<not> active (boxes posted_ui 2)" "most_recent_activity (boxes posted_ui 2) \<noteq> oldest_date"
    "unread_ids (boxes posted_ui 2) \<noteq> {||}" "active_channel posted_ui \<noteq> Some 2"
    by (simp_all add: posted_ui_facts oldest_date_def)
  from retract_keeps_badge [of 2 "[''p1'']" posted_ui "\<lambda>t. int (length t)" 20 new_atoms] h1 h2 h3
  show ?thesis
    by (simp add: retracted_ui_def [symmetric] posted_ui_facts retracted_ui_facts(2,4)
          fcard_finsert_if fcard_fempty)
qed

end
